theory Spec2Isabelle
  imports Complex_Main "HOL-Library.Sublist" "HOL-Library.AList" "HOL-Library.Multiset"
begin

section \<open>JavaScript strings and arrays\<close>

text \<open>
  A JavaScript string is modelled as a \<^typ>\<open>string\<close> whose characters are the code units
  0..255 (ASCII and the Latin-1 supplement); strings holding code units above 255 are outside
  the model. The character classes below are the ones the source's regular expressions and
  string methods use, restricted to that range.
\<close>

definition toLowerCase_char :: "char \<Rightarrow> char" where
  \<comment> \<open>\<open>String.prototype.toLowerCase\<close> on one code unit: A-Z and the upper-case letters
      U+00C0..U+00DE (except the multiplication sign U+00D7) move up by 32.\<close>
  "toLowerCase_char c =
     (let n = (of_char c :: nat)
      in if (65 \<le> n \<and> n \<le> 90) \<or> (192 \<le> n \<and> n \<le> 222 \<and> n \<noteq> 215)
         then char_of (n + 32) else c)"

definition toLowerCase :: "string \<Rightarrow> string" where
  "toLowerCase s = map toLowerCase_char s"

definition is_space :: "char \<Rightarrow> bool" where
  \<comment> \<open>the class \<open>\s\<close>, which is also what \<open>trim\<close> strips: TAB, LF, VT, FF, CR, SPACE, NBSP\<close>
  "is_space c = (let n = (of_char c :: nat) in (9 \<le> n \<and> n \<le> 13) \<or> n = 32 \<or> n = 160)"

definition is_word_char :: "char \<Rightarrow> bool" where
  \<comment> \<open>the class \<open>\w\<close> = \<open>[A-Za-z0-9_]\<close>, which decides \<open>\b\<close>\<close>
  "is_word_char c =
     (let n = (of_char c :: nat)
      in (48 \<le> n \<and> n \<le> 57) \<or> (65 \<le> n \<and> n \<le> 90) \<or> n = 95 \<or> (97 \<le> n \<and> n \<le> 122))"

definition trim :: "string \<Rightarrow> string" where
  "trim s = rev (dropWhile is_space (rev (dropWhile is_space s)))"

fun js_includes :: "string \<Rightarrow> string \<Rightarrow> bool" where
  \<comment> \<open>\<open>s.includes(sub)\<close>\<close>
  "js_includes [] sub = (sub = [])"
| "js_includes (c # cs) sub = (prefix sub (c # cs) \<or> js_includes cs sub)"

fun split_first :: "string \<Rightarrow> string \<Rightarrow> string" where
  \<comment> \<open>\<open>s.split(sep)[0]\<close> for a non-empty separator: the text before the first \<open>sep\<close>,
      the whole of \<open>s\<close> when \<open>sep\<close> does not occur\<close>
  "split_first sep [] = []"
| "split_first sep (c # cs) = (if prefix sep (c # cs) then [] else c # split_first sep cs)"

definition or_str :: "string \<Rightarrow> string \<Rightarrow> string" where
  \<comment> \<open>\<open>a || b\<close> on strings: the empty string is falsy\<close>
  "or_str a b = (if a \<noteq> [] then a else b)"

fun insert_sorted :: "('a \<Rightarrow> 'a \<Rightarrow> real) \<Rightarrow> 'a \<Rightarrow> 'a list \<Rightarrow> 'a list" where
  "insert_sorted cmp x [] = [x]"
| "insert_sorted cmp x (y # ys) =
     (if cmp x y \<le> 0 then x # y # ys else y # insert_sorted cmp x ys)"

definition js_sort :: "('a \<Rightarrow> 'a \<Rightarrow> real) \<Rightarrow> 'a list \<Rightarrow> 'a list" where
  \<comment> \<open>\<open>Array.prototype.sort(cmp)\<close>: the elements in the comparator's order, those it
      compares as equal in their former order (the sort is stable). For a consistent
      comparator the result does not depend on the engine's algorithm.\<close>
  "js_sort cmp xs = foldr (insert_sorted cmp) xs []"

section \<open>Name normalizer\<close>

text \<open>
  \<^verbatim>\<open>
  function normalizeName(name) {
    return name
      .toLowerCase()
      .replace(/\./g, '')
      .replace(/'/g, '')
      .replace(/-/g, ' ')
      .replace(/\b(jr|sr|ii|iii|iv)\b/g, '')
      .replace(/\s+/g, ' ')
      .trim();
  }
  \<close>
  Each \<open>replace\<close> with a global regular expression is a left-to-right scan.
\<close>

definition replace_char_all :: "char \<Rightarrow> string \<Rightarrow> string \<Rightarrow> string" where
  \<comment> \<open>\<open>s.replace(/c/g, r)\<close> for a one-character pattern\<close>
  "replace_char_all c r s = concat (map (\<lambda>d. if d = c then r else [d]) s)"

definition suffix_alternatives :: "string list" where
  "suffix_alternatives = [''jr'', ''sr'', ''ii'', ''iii'', ''iv'']"

definition word_boundary :: "bool \<Rightarrow> string \<Rightarrow> bool" where
  \<comment> \<open>\<open>\b\<close> at a position: the character before (\<open>pw\<close> says whether it is a word
      character; there is none at the start) and the character after differ in class\<close>
  "word_boundary pw s = (pw \<noteq> (case s of [] \<Rightarrow> False | c # _ \<Rightarrow> is_word_char c))"

fun match_alternatives :: "string list \<Rightarrow> string \<Rightarrow> nat option" where
  \<comment> \<open>\<open>(a1|a2|...)\b\<close> at the start of \<open>s\<close>: the alternatives are tried in order; the
      length of the first one that matches and is followed by a boundary\<close>
  "match_alternatives [] s = None"
| "match_alternatives (a # as) s =
     (if prefix a s \<and> word_boundary (is_word_char (last a)) (drop (length a) s)
      then Some (length a) else match_alternatives as s)"

definition match_suffix_here :: "bool \<Rightarrow> string \<Rightarrow> nat option" where
  \<comment> \<open>\<open>\b(jr|sr|ii|iii|iv)\b\<close> at the start of \<open>s\<close>\<close>
  "match_suffix_here pw s =
     (if word_boundary pw s then match_alternatives suffix_alternatives s else None)"

fun strip_suffixes :: "nat \<Rightarrow> bool \<Rightarrow> string \<Rightarrow> string" where
  \<comment> \<open>\<open>s.replace(/\b(jr|sr|ii|iii|iv)\b/g, '')\<close>: \<open>k\<close> counts the characters of the current
      match that are still to be consumed, \<open>pw\<close> is the class of the previous character\<close>
  "strip_suffixes k pw [] = []"
| "strip_suffixes (Suc k) pw (c # cs) = strip_suffixes k (is_word_char c) cs"
| "strip_suffixes 0 pw (c # cs) =
     (case match_suffix_here pw (c # cs) of
        Some n \<Rightarrow> strip_suffixes (n - 1) (is_word_char c) cs
      | None \<Rightarrow> c # strip_suffixes 0 (is_word_char c) cs)"

fun collapse_ws :: "bool \<Rightarrow> string \<Rightarrow> string" where
  \<comment> \<open>\<open>s.replace(/\s+/g, ' ')\<close>: \<open>ps\<close> says that the scan is inside a whitespace run whose
      single replacement space is already written\<close>
  "collapse_ws ps [] = []"
| "collapse_ws ps (c # cs) =
     (if is_space c then (if ps then collapse_ws True cs else CHR '' '' # collapse_ws True cs)
      else c # collapse_ws False cs)"

definition normalizeName :: "string \<Rightarrow> string" where
  "normalizeName name =
     trim (collapse_ws False (strip_suffixes 0 False
       (replace_char_all (CHR ''-'') '' ''
         (replace_char_all (CHR 0x27) ''''
           (replace_char_all (CHR ''.'') '''' (toLowerCase name))))))"

text \<open>
  The same contract in the specification's words: runs of word characters are the whole
  words, runs of whitespace are collapsed.
\<close>

fun runs :: "('a \<Rightarrow> bool) \<Rightarrow> 'a list \<Rightarrow> 'a list list" where
  \<comment> \<open>the maximal runs of elements on which \<open>P\<close> has the same value, in order\<close>
  "runs P [] = []"
| "runs P (c # cs) =
     (case runs P cs of
        (d # r) # rs \<Rightarrow> if P c = P d then (c # d # r) # rs else [c] # (d # r) # rs
      | _ \<Rightarrow> [c] # [])"

definition remove_suffix_words :: "string \<Rightarrow> string" where
  \<comment> \<open>removing the standalone suffix tokens, as whole words\<close>
  "remove_suffix_words s =
     concat (filter (\<lambda>r. r \<notin> set suffix_alternatives) (runs is_word_char s))"

definition collapse_runs :: "string \<Rightarrow> string" where
  \<comment> \<open>collapsing whitespace runs to a single space\<close>
  "collapse_runs s =
     concat (map (\<lambda>r. case r of [] \<Rightarrow> [] | c # _ \<Rightarrow> if is_space c then '' '' else r)
                 (runs is_space s))"

definition normalize_spec :: "string \<Rightarrow> string" where
  "normalize_spec name =
     trim (collapse_runs (remove_suffix_words
       (map (\<lambda>c. if c = CHR ''-'' then CHR '' '' else c)
         (filter (\<lambda>c. c \<noteq> CHR ''.'' \<and> c \<noteq> CHR 0x27) (map toLowerCase_char name)))))"

section \<open>Alias table\<close>

definition NAME_ALIASES :: "string \<rightharpoonup> string" where
  "NAME_ALIASES = map_of
     [(''josh palmer'', ''joshua palmer''),
      (''joshua palmer'', ''josh palmer''),
      (''hollywood brown'', ''marquise brown''),
      (''marquise brown'', ''hollywood brown''),
      (''chig okonkwo'', ''chigoziem okonkwo''),
      (''chigoziem okonkwo'', ''chig okonkwo''),
      (''cam ward'', ''cameron ward''),
      (''cameron ward'', ''cam ward'')]"

section \<open>Projection catalog\<close>

text \<open>
  A projection record is \<open>{ player, position, fantasy, team }\<close>; the name index keeps
  \<open>{ player, position, fantasy }\<close>. The loader stores what \<open>parseFloat\<close> returns;
  the matching engine and the aggregators work on finite point values, modelled as exact
  reals (rounding of doubles is not modelled).
\<close>

record 'n candidate =
  player :: string
  position :: string
  fantasy :: 'n

record 'n projection = "'n candidate" +
  team :: string

datatype js_number = Finite real | PosInfinity | NegInfinity

definition is_digit :: "char \<Rightarrow> bool" where
  "is_digit c = (let n = (of_char c :: nat) in 48 \<le> n \<and> n \<le> 57)"

definition digits_value :: "string \<Rightarrow> nat" where
  "digits_value ds = foldl (\<lambda>a c. 10 * a + (of_char c - 48)) 0 ds"

definition exponent_part :: "string \<Rightarrow> int" where
  \<comment> \<open>the value of an \<open>ExponentPart\<close> at the start of \<open>s\<close>; 0 when there is none\<close>
  "exponent_part s =
     (case s of
        [] \<Rightarrow> 0
      | e # r \<Rightarrow>
          if e = CHR ''e'' \<or> e = CHR ''E'' then
            (case r of
               [] \<Rightarrow> 0
             | c # r' \<Rightarrow>
                 if c = CHR ''-'' then - int (digits_value (takeWhile is_digit r'))
                 else if c = CHR ''+'' then int (digits_value (takeWhile is_digit r'))
                 else int (digits_value (takeWhile is_digit r)))
          else 0)"

definition overflow_threshold :: real where
  \<comment> \<open>\<open>2^1024 - 2^970\<close>, half-way between the largest double and \<open>2^1024\<close>\<close>
  "overflow_threshold =
     179769313486231580793728971405303415079934132710037826936173778980444968292764750946649017977587207096330286416692887910946555547851940402630657488671505820681908902000708383676273854845817711531764475730270069855571366959622842914819860834936475292719074168444365510704342711559699508093042880177904174497792"

definition to_double :: "real \<Rightarrow> js_number" where
  \<comment> \<open>the double for a non-negative literal value \<open>v\<close>: from the threshold on it is
      \<open>Infinity\<close>; below, the value is kept exact (rounding to the nearest double, and so
      underflow, is not modelled)\<close>
  "to_double v = (if overflow_threshold \<le> v then PosInfinity else Finite v)"

definition unsigned_literal :: "string \<Rightarrow> js_number option" where
  \<comment> \<open>the longest prefix of \<open>s\<close> that is \<open>Infinity\<close> or an unsigned decimal literal\<close>
  "unsigned_literal s =
     (if prefix ''Infinity'' s then Some PosInfinity
      else
        (let ip = takeWhile is_digit s;
             r1 = dropWhile is_digit s;
             fp = (case r1 of [] \<Rightarrow> [] | c # r \<Rightarrow> if c = CHR ''.'' then takeWhile is_digit r else []);
             r2 = (case r1 of [] \<Rightarrow> [] | c # r \<Rightarrow> if c = CHR ''.'' then dropWhile is_digit r else r1)
         in if ip = [] \<and> fp = [] then None
            else Some (to_double ((real (digits_value ip) + real (digits_value fp) / 10 ^ length fp)
                                  * 10 powi exponent_part r2))))"

definition negate :: "js_number \<Rightarrow> js_number" where
  "negate x = (case x of Finite v \<Rightarrow> Finite (- v) | PosInfinity \<Rightarrow> NegInfinity | NegInfinity \<Rightarrow> PosInfinity)"

definition parseFloat :: "string \<Rightarrow> js_number option" where
  \<comment> \<open>the builtin \<open>parseFloat\<close>: leading whitespace is skipped, the longest prefix that is a
      decimal literal is read, \<open>None\<close> is \<open>NaN\<close>\<close>
  "parseFloat s =
     (case dropWhile is_space s of
        [] \<Rightarrow> None
      | c # r \<Rightarrow>
          if c = CHR ''-'' then map_option negate (unsigned_literal r)
          else if c = CHR ''+'' then unsigned_literal r
          else unsigned_literal (c # r))"

type_synonym csv_row = "string \<rightharpoonup> string"

definition column :: "csv_row \<Rightarrow> string \<Rightarrow> string" where
  \<comment> \<open>\<open>row.k\<close> as the \<open>||\<close> chains see it: an absent column and an empty one are both
      falsy, written as the empty string\<close>
  "column row k = (case row k of None \<Rightarrow> [] | Some v \<Rightarrow> v)"

text \<open>
  \<^verbatim>\<open>
  .on('data', (row) => {
    const player = (row.player || '').trim();
    const fantasy = parseFloat(row.fantasy || row.FPTS || row.points || '0');
    if (player && !Number.isNaN(fantasy)) {
      const team = (row.team || '').trim();
      records.set(player, { player, position, fantasy, team });
    }
  })
  \<close>
\<close>

definition points_text :: "csv_row \<Rightarrow> string" where
  "points_text row =
     or_str (column row ''fantasy'') (or_str (column row ''FPTS'') (or_str (column row ''points'') ''0''))"

definition loadCsvRow :: "string \<Rightarrow> csv_row \<Rightarrow> js_number projection option" where
  "loadCsvRow pos row =
     (let player = trim (or_str (column row ''player'') []);
          fantasy = parseFloat (points_text row)
      in if player \<noteq> [] then
           (case fantasy of
              None \<Rightarrow> None
            | Some points \<Rightarrow>
                Some \<lparr>player = player, position = pos, fantasy = points,
                      team = trim (or_str (column row ''team'') [])\<rparr>)
         else None)"

definition loadCsvProjections :: "string \<Rightarrow> csv_row list \<Rightarrow> (string \<times> js_number projection) list" where
  \<comment> \<open>the \<open>Map\<close> of records, in iteration order: \<open>records.set\<close> keeps the place of a
      player already present and replaces its record\<close>
  "loadCsvProjections pos rows =
     foldl (\<lambda>records row. case loadCsvRow pos row of
                             None \<Rightarrow> records
                           | Some r \<Rightarrow> AList.update (player r) r records) [] rows"

text \<open>
  The loaded catalog \<open>{ qbs, rbs, wrs, tes, ks, dsts }\<close>: of each \<open>Map\<close> its values in
  iteration order, which is all that the index, the engine and the aggregators read.
\<close>

record projections =
  qbs :: "real projection list"
  rbs :: "real projection list"
  wrs :: "real projection list"
  tes :: "real projection list"
  ks :: "real projection list"
  dsts :: "real projection list"

section \<open>Name index\<close>

type_synonym name_index = "string \<rightharpoonup> real candidate list"

definition index_get :: "name_index \<Rightarrow> string \<Rightarrow> real candidate list" where
  \<comment> \<open>\<open>nameIndex.get(k) || []\<close>\<close>
  "index_get index k = (case index k of None \<Rightarrow> [] | Some cs \<Rightarrow> cs)"

definition index_push :: "name_index \<Rightarrow> string \<Rightarrow> real candidate \<Rightarrow> name_index" where
  \<comment> \<open>\<open>if (!index.has(k)) index.set(k, []); index.get(k).push(c)\<close>\<close>
  "index_push index k c = index(k \<mapsto> index_get index k @ [c])"

definition index_keys :: "string \<Rightarrow> string list" where
  "index_keys key =
     (case NAME_ALIASES key of
        None \<Rightarrow> [key]
      | Some alias \<Rightarrow> if alias \<noteq> [] then [key, alias] else [key])"

definition index_record :: "name_index \<Rightarrow> real projection \<Rightarrow> name_index" where
  "index_record index r =
     foldl (\<lambda>idx k. index_push idx k \<lparr>player = player r, position = position r, fantasy = fantasy r\<rparr>)
           index (index_keys (normalizeName (player r)))"

definition all_records :: "projections \<Rightarrow> real projection list" where
  \<comment> \<open>the six maps' values in the fixed order qbs, rbs, wrs, tes, ks, dsts\<close>
  "all_records ps = concat [qbs ps, rbs ps, wrs ps, tes ps, ks ps, dsts ps]"

definition buildNameIndex :: "projections \<Rightarrow> name_index" where
  "buildNameIndex ps = foldl index_record Map.empty (all_records ps)"

section \<open>Roster snapshot\<close>

record roster_entry =
  e_id :: string
  e_name :: string
  e_position :: string
  e_isStarter :: bool

record roster =
  rosterId :: string
  roster_teamName :: string
  entries :: "roster_entry list"

section \<open>Matching engine\<close>

record matched_player =
  m_name :: string
  m_position :: string
  m_projected :: real
  m_isStarter :: bool

text \<open>
  \<^verbatim>\<open>
  const key = normalizeName(entry.name);
  let match = (nameIndex.get(key) || []).find(m => m.position === entry.position);
  if (!match) {
    const alias = NAME_ALIASES.get(key);
    if (alias) {
      match = (nameIndex.get(alias) || []).find(m => m.position === entry.position);
    }
  }
  if (!match) {
    const candidates = nameIndex.get(key);
    if (candidates && candidates.length > 0) match = candidates[0];
  }
  \<close>
  The variable \<open>match\<close> is assigned up to three times; \<open>None\<close> is \<open>undefined\<close>.
\<close>

definition lookup_match :: "name_index \<Rightarrow> roster_entry \<Rightarrow> real candidate option" where
  "lookup_match nameIndex entry =
     (let key = normalizeName (e_name entry);
          match1 = find (\<lambda>m. position m = e_position entry) (index_get nameIndex key);
          match2 =
            (if match1 = None then
               (case NAME_ALIASES key of
                  None \<Rightarrow> match1
                | Some alias \<Rightarrow>
                    if alias \<noteq> [] then
                      find (\<lambda>m. position m = e_position entry) (index_get nameIndex alias)
                    else match1)
             else match1);
          match3 =
            (if match2 = None then
               (case nameIndex key of
                  None \<Rightarrow> match2
                | Some candidates \<Rightarrow>
                    (case candidates of [] \<Rightarrow> match2 | c # _ \<Rightarrow> Some c))
             else match2)
      in match3)"

text \<open>The ordered policy in the specification's words, one step per \<open>case\<close>.\<close>

definition policy_match :: "name_index \<Rightarrow> roster_entry \<Rightarrow> real candidate option" where
  "policy_match nameIndex entry =
     (let key = normalizeName (e_name entry)
      in case find (\<lambda>m. position m = e_position entry) (index_get nameIndex key) of
           Some m \<Rightarrow> Some m
         | None \<Rightarrow>
             (case (case NAME_ALIASES key of
                      None \<Rightarrow> None
                    | Some alias \<Rightarrow>
                        find (\<lambda>m. position m = e_position entry) (index_get nameIndex alias)) of
                Some m \<Rightarrow> Some m
              | None \<Rightarrow>
                  (case index_get nameIndex key of [] \<Rightarrow> None | c # _ \<Rightarrow> Some c)))"

type_synonym estimate_state = "real \<times> matched_player list"

definition detail :: "roster_entry \<Rightarrow> real \<Rightarrow> matched_player" where
  \<comment> \<open>\<open>{ name: entry.name, position: entry.position, projected: p, isStarter: !!entry.isStarter }\<close>\<close>
  "detail entry p =
     \<lparr>m_name = e_name entry, m_position = e_position entry, m_projected = p,
      m_isStarter = e_isStarter entry\<rparr>"

text \<open>
  \<^verbatim>\<open>
  for (const { player, fantasy, team } of dstMap.values()) {
    if (player.toLowerCase().includes('d/st')) {
      const teamName = player.split(' D/ST')[0];
      if (
        entry.name.toLowerCase().includes(teamName.toLowerCase()) ||
        (team && entry.name.toLowerCase().includes(team.toLowerCase()))
      ) {
        total += fantasy;
        details.push({ ... projected: fantasy ... });
        break;
      }
    }
  }
  \<close>
\<close>

fun dst_loop :: "roster_entry \<Rightarrow> real projection list \<Rightarrow> estimate_state \<Rightarrow> estimate_state" where
  "dst_loop entry [] st = st"
| "dst_loop entry (r # rs) (tot, details) =
     (if js_includes (toLowerCase (player r)) ''d/st'' then
        (let teamName = split_first '' D/ST'' (player r)
         in if js_includes (toLowerCase (e_name entry)) (toLowerCase teamName) \<or>
               (team r \<noteq> [] \<and> js_includes (toLowerCase (e_name entry)) (toLowerCase (team r)))
            then (tot + fantasy r, details @ [detail entry (fantasy r)])
            else dst_loop entry rs (tot, details))
      else dst_loop entry rs (tot, details))"

definition estimate_entry ::
  "name_index \<Rightarrow> real projection list \<Rightarrow> estimate_state \<Rightarrow> roster_entry \<Rightarrow> estimate_state" where
  \<comment> \<open>the body of the loop over \<open>roster.entries\<close>\<close>
  "estimate_entry nameIndex dstMap st entry =
     (case lookup_match nameIndex entry of
        Some match \<Rightarrow> (fst st + fantasy match, snd st @ [detail entry (fantasy match)])
      | None \<Rightarrow>
          if e_position entry = ''DEF'' \<or> e_position entry = ''DST'' then dst_loop entry dstMap st
          else (fst st, snd st @ [detail entry 0]))"

definition estimateTeamPoints ::
  "roster \<Rightarrow> name_index \<Rightarrow> real projection list \<Rightarrow> estimate_state" where
  "estimateTeamPoints r nameIndex dstMap =
     foldl (estimate_entry nameIndex dstMap) (0, []) (entries r)"

text \<open>
  The defense rule as the specification words it: the franchise name is the record's name
  without a trailing \<open>" D/ST"\<close> in any letter case.
\<close>

definition franchise_name :: "string \<Rightarrow> string" where
  "franchise_name name =
     (if suffix '' d/st'' (toLowerCase name) then take (length name - 5) name else name)"

definition claimed_dst_match :: "roster_entry \<Rightarrow> real projection \<Rightarrow> bool" where
  "claimed_dst_match entry r =
     (js_includes (toLowerCase (e_name entry)) (toLowerCase (franchise_name (player r))) \<or>
      (team r \<noteq> [] \<and> js_includes (toLowerCase (e_name entry)) (toLowerCase (team r))))"

section \<open>Availability aggregator\<close>

record available_player =
  a_player :: string
  a_position :: string
  a_projected :: real
  a_team :: string

type_synonym rostered = "(string \<rightharpoonup> string set) \<times> string list"

definition names_at :: "rostered \<Rightarrow> string \<Rightarrow> string set" where
  \<comment> \<open>the rostered-name set of a position; empty while the position has no set\<close>
  "names_at st pos = (case fst st pos of None \<Rightarrow> {} | Some ns \<Rightarrow> ns)"

definition add_rostered :: "rostered \<Rightarrow> roster_entry \<Rightarrow> rostered" where
  \<comment> \<open>the body of the loop that fills \<open>rosteredByPos\<close> and \<open>rosteredDstTeams\<close>\<close>
  "add_rostered st entry =
     (let pos = e_position entry;
          names = names_at st pos;
          key = normalizeName (e_name entry);
          names1 = insert key names;
          names2 = (case NAME_ALIASES key of
                      None \<Rightarrow> names1
                    | Some alias \<Rightarrow> if alias \<noteq> [] then insert alias names1 else names1)
      in ((fst st)(pos \<mapsto> names2),
          if pos = ''DST'' \<or> pos = ''DEF'' then snd st @ [toLowerCase (e_name entry)] else snd st))"

definition collect_rostered :: "roster list \<Rightarrow> rostered" where
  "collect_rostered rosters = foldl add_rostered (Map.empty, []) (concat (map entries rosters))"

definition dst_team_name :: "string \<Rightarrow> string" where
  \<comment> \<open>\<open>teamName\<close> in \<open>isDstRostered\<close>\<close>
  "dst_team_name dstPlayerName =
     (let lower = toLowerCase dstPlayerName
      in if js_includes lower '' d/st'' then split_first '' d/st'' lower else lower)"

fun dst_rostered_loop :: "string \<Rightarrow> string \<Rightarrow> string list \<Rightarrow> bool" where
  "dst_rostered_loop teamName teamCode [] = False"
| "dst_rostered_loop teamName teamCode (rosterName # rest) =
     (if js_includes rosterName teamName \<or>
         (teamCode \<noteq> [] \<and> js_includes rosterName (toLowerCase teamCode))
      then True else dst_rostered_loop teamName teamCode rest)"

definition isDstRostered :: "string list \<Rightarrow> string \<Rightarrow> string \<Rightarrow> bool" where
  "isDstRostered rosteredDstTeams dstPlayerName teamCode =
     dst_rostered_loop (dst_team_name dstPlayerName) teamCode rosteredDstTeams"

definition to_available :: "real projection \<Rightarrow> available_player" where
  "to_available r =
     \<lparr>a_player = player r, a_position = position r, a_projected = fantasy r, a_team = team r\<rparr>"

definition is_taken :: "rostered \<Rightarrow> real projection \<Rightarrow> bool" where
  \<comment> \<open>\<open>taken\<close> for a record that is not a defense\<close>
  "is_taken st r =
     (case fst st (position r) of
        None \<Rightarrow> False
      | Some names \<Rightarrow>
          normalizeName (player r) \<in> names \<or>
          (case NAME_ALIASES (normalizeName (player r)) of
             None \<Rightarrow> False
           | Some alias \<Rightarrow> alias \<noteq> [] \<and> alias \<in> names))"

definition add_available :: "rostered \<Rightarrow> available_player list \<Rightarrow> real projection \<Rightarrow> available_player list" where
  \<comment> \<open>the body of the loop over every record of every map\<close>
  "add_available st available r =
     (if position r = ''DST'' then
        (if isDstRostered (snd st) (player r) (team r) then available
         else available @ [to_available r])
      else if is_taken st r then available
      else available @ [to_available r])"

definition available_players :: "projections \<Rightarrow> roster list \<Rightarrow> available_player list" where
  "available_players ps rosters =
     js_sort (\<lambda>a b. a_projected b - a_projected a)
       (foldl (add_available (collect_rostered rosters)) [] (all_records ps))"

text \<open>
  When a roster entry corresponds to a projection record, as the aggregator has it. To a
  defense record (position DST): a defense entry (position DST or DEF) whose lower-cased
  name contains the record's lower-cased name cut at its first \<open>" d/st"\<close>, or the record's
  non-empty team code in lower case. To any other record: an entry of the record's position
  whose normalized name, or its alias, is the record's normalized name or its alias.
\<close>

definition name_forms :: "string \<Rightarrow> string set" where
  \<comment> \<open>a display name's normalized key together with the key's alias\<close>
  "name_forms n =
     insert (normalizeName n)
       (case NAME_ALIASES (normalizeName n) of None \<Rightarrow> {} | Some alias \<Rightarrow> {alias})"

definition name_before_dst :: "string \<Rightarrow> string" where
  \<comment> \<open>a record's name in lower case, cut at the first place where \<open>" d/st"\<close> starts; the
      whole lower-cased name when there is no such place\<close>
  "name_before_dst name =
     (case find (\<lambda>n. prefix '' d/st'' (drop n (toLowerCase name)))
             [0..<length (toLowerCase name)] of
        None \<Rightarrow> toLowerCase name
      | Some n \<Rightarrow> take n (toLowerCase name))"

definition corresponds :: "roster_entry \<Rightarrow> real projection \<Rightarrow> bool" where
  "corresponds entry r =
     (if position r = ''DST'' then
        (e_position entry = ''DST'' \<or> e_position entry = ''DEF'') \<and>
        (js_includes (toLowerCase (e_name entry)) (name_before_dst (player r)) \<or>
         (team r \<noteq> [] \<and> js_includes (toLowerCase (e_name entry)) (toLowerCase (team r))))
      else e_position entry = position r \<and> name_forms (e_name entry) \<inter> name_forms (player r) \<noteq> {})"

text \<open>
  The same relation as the specification's property words it: normalization and aliasing
  alone for a record that is not a defense, and for a defense record the franchise name
  without a trailing \<open>" D/ST"\<close>.
\<close>

definition claimed_corresponds :: "roster_entry \<Rightarrow> real projection \<Rightarrow> bool" where
  "claimed_corresponds entry r =
     (if position r = ''DST'' then
        (e_position entry = ''DST'' \<or> e_position entry = ''DEF'') \<and> claimed_dst_match entry r
      else name_forms (e_name entry) \<inter> name_forms (player r) \<noteq> {})"

section \<open>Ranking aggregator\<close>

record team_result =
  teamName :: string
  totalProjected :: real
  players :: "matched_player list"

record ranked_team = team_result +
  rank :: nat

definition team_results :: "roster list \<Rightarrow> name_index \<Rightarrow> real projection list \<Rightarrow> team_result list" where
  "team_results rosters nameIndex dstMap =
     map (\<lambda>r. \<lparr>teamName = roster_teamName r,
                totalProjected = fst (estimateTeamPoints r nameIndex dstMap),
                players = snd (estimateTeamPoints r nameIndex dstMap)\<rparr>) rosters"

definition with_rank :: "team_result list \<Rightarrow> ranked_team list" where
  \<comment> \<open>\<open>results.map((r, idx) => ({ rank: idx + 1, ...r }))\<close>\<close>
  "with_rank results =
     map (\<lambda>(idx, r). \<lparr>teamName = teamName r, totalProjected = totalProjected r,
                       players = players r, rank = idx + 1\<rparr>) (enumerate 0 results)"

definition unranked :: "ranked_team \<Rightarrow> team_result" where
  \<comment> \<open>a ranked team without its rank\<close>
  "unranked t = \<lparr>teamName = teamName t, totalProjected = totalProjected t, players = players t\<rparr>"

definition rank_teams :: "team_result list \<Rightarrow> ranked_team list" where
  \<comment> \<open>\<open>results.sort((a, b) => b.totalProjected - a.totalProjected)\<close>, then the ranks\<close>
  "rank_teams results = with_rank (js_sort (\<lambda>a b. totalProjected b - totalProjected a) results)"

definition computeRankings :: "projections \<Rightarrow> roster list \<Rightarrow> ranked_team list" where
  "computeRankings ps rosters =
     rank_teams (team_results rosters (buildNameIndex ps) (dsts ps))"

section \<open>Request surface\<close>

definition DEFAULT_LEAGUE_ID :: string where
  "DEFAULT_LEAGUE_ID = ''1257482024906657792''"

text \<open>
  A request carries the query parameter \<open>leagueId\<close> and the process the environment
  variable \<open>LEAGUE_ID\<close>; \<open>None\<close> is an absent one. The handlers of
  \<open>api/available.js\<close>, of the standalone \<open>api/rankings.js\<close> and of the server resolve
  \<^verbatim>\<open>
  (req.query && req.query.leagueId ? String(req.query.leagueId).trim() : '') ||
  (process.env.LEAGUE_ID || '').trim() ||
  DEFAULT_LEAGUE_ID
  \<close>
\<close>

definition resolveLeagueId :: "string option \<Rightarrow> string option \<Rightarrow> string" where
  "resolveLeagueId query env =
     or_str (case query of None \<Rightarrow> [] | Some v \<Rightarrow> if v \<noteq> [] then trim v else [])
       (or_str (trim (or_str (case env of None \<Rightarrow> [] | Some v \<Rightarrow> v) [])) DEFAULT_LEAGUE_ID)"

text \<open>
  The handler that \<open>api/rankings.js\<close> exports first, a wrapper around \<open>computeRankings\<close>:
  \<^verbatim>\<open>
  const leagueId = process.env.LEAGUE_ID || String(req.query.leagueId || '').trim();
  \<close>
\<close>

definition resolveLeagueId_wrapper :: "string option \<Rightarrow> string option \<Rightarrow> string" where
  "resolveLeagueId_wrapper query env =
     or_str (case env of None \<Rightarrow> [] | Some v \<Rightarrow> v)
            (trim (or_str (case query of None \<Rightarrow> [] | Some v \<Rightarrow> v) []))"

datatype 'a response = Status400 string | Status200 'a

definition handle :: "string \<Rightarrow> (string \<Rightarrow> 'a) \<Rightarrow> 'a response" where
  \<comment> \<open>\<open>if (!leagueId) return res.status(400).json({ error: 'Missing LEAGUE_ID' })\<close>, then the
      computation \<open>compute\<close> on the league's data\<close>
  "handle leagueId compute =
     (if leagueId = [] then Status400 ''Missing LEAGUE_ID'' else Status200 (compute leagueId))"

definition handler :: "string option \<Rightarrow> string option \<Rightarrow> (string \<Rightarrow> 'a) \<Rightarrow> 'a response" where
  "handler query env compute = handle (resolveLeagueId query env) compute"

definition handler_wrapper :: "string option \<Rightarrow> string option \<Rightarrow> (string \<Rightarrow> 'a) \<Rightarrow> 'a response" where
  "handler_wrapper query env compute = handle (resolveLeagueId_wrapper query env) compute"

section \<open>Properties of the name normalizer\<close>

subsection \<open>Character classes\<close>

lemma word_not_space: "is_word_char c \<Longrightarrow> \<not> is_space c"
  by (auto simp: is_word_char_def is_space_def Let_def)

lemma space_char_is_space: "is_space (CHR '' '')"
  by code_simp

lemma space_not_word: "\<not> is_word_char (CHR '' '')"
  by code_simp

lemma toLowerCase_char_idem: "toLowerCase_char (toLowerCase_char c) = toLowerCase_char c"
proof -
  let ?n = "of_char c :: nat"
  show ?thesis
  proof (cases "(65 \<le> ?n \<and> ?n \<le> 90) \<or> (192 \<le> ?n \<and> ?n \<le> 222 \<and> ?n \<noteq> 215)")
    case True
    then have "of_char (char_of (?n + 32) :: char) = ?n + 32"
      by (auto simp: of_char_of)
    with True show ?thesis
      by (auto simp: toLowerCase_char_def Let_def)
  next
    case False
    then show ?thesis by (auto simp: toLowerCase_char_def Let_def)
  qed
qed

lemma word_induct [case_names Nil NonWord Word]:
  assumes nil: "P []"
    and nonword: "\<And>c cs. \<not> is_word_char c \<Longrightarrow> P cs \<Longrightarrow> P (c # cs)"
    and word: "\<And>w rest. w \<noteq> [] \<Longrightarrow> \<forall>c\<in>set w. is_word_char c \<Longrightarrow>
                 rest = [] \<or> \<not> is_word_char (hd rest) \<Longrightarrow> P rest \<Longrightarrow> P (w @ rest)"
  shows "P s"
proof (induction s rule: length_induct)
  case (1 s)
  show ?case
  proof (cases s)
    case Nil
    then show ?thesis using nil by simp
  next
    case (Cons c cs)
    show ?thesis
    proof (cases "is_word_char c")
      case False
      with Cons 1 nonword show ?thesis by simp
    next
      case True
      let ?w = "takeWhile is_word_char s" and ?r = "dropWhile is_word_char s"
      have w: "?w \<noteq> []" using True Cons by simp
      have allw: "\<forall>c\<in>set ?w. is_word_char c" by (auto dest: set_takeWhileD)
      have r: "?r = [] \<or> \<not> is_word_char (hd ?r)" by (metis hd_dropWhile)
      have "length ?r < length s"
        using w by (metis length_append length_greater_0_conv less_add_same_cancel2 takeWhile_dropWhile_id add.commute)
      with 1 have "P ?r" by blast
      from word[OF w allw r this] show ?thesis by simp
    qed
  qed
qed

subsection \<open>The suffix scan, word by word\<close>

lemma suffix_alternatives_word:
  "a \<in> set suffix_alternatives \<Longrightarrow> a \<noteq> [] \<and> (\<forall>c\<in>set a. is_word_char c)"
  unfolding suffix_alternatives_def by (auto; code_simp)

lemma match_alternatives_nonword:
  "\<not> is_word_char c \<Longrightarrow> \<forall>a\<in>set as. a \<noteq> [] \<and> (\<forall>c\<in>set a. is_word_char c) \<Longrightarrow>
   match_alternatives as (c # cs) = None"
proof (induction as)
  case Nil
  then show ?case by simp
next
  case (Cons a as)
  then obtain d ds where a: "a = d # ds" and d: "is_word_char d"
    by (cases a) auto
  with Cons show ?case by (auto simp: a)
qed

lemma match_suffix_here_nonword:
  "\<not> is_word_char c \<Longrightarrow> match_suffix_here pw (c # cs) = None"
  using match_alternatives_nonword[of c suffix_alternatives cs] suffix_alternatives_word
  by (simp add: match_suffix_here_def)

lemma strip_nonword:
  "\<not> is_word_char c \<Longrightarrow> strip_suffixes 0 pw (c # cs) = c # strip_suffixes 0 False cs"
  by (simp add: match_suffix_here_nonword)

lemma strip_pw_irrelevant:
  "rest = [] \<or> \<not> is_word_char (hd rest) \<Longrightarrow>
   strip_suffixes 0 pw rest = strip_suffixes 0 False rest"
  by (cases rest) (simp_all add: strip_nonword del: strip_suffixes.simps(3))

lemma strip_skip:
  "strip_suffixes (length u) pw (u @ rest) =
   strip_suffixes 0 (if u = [] then pw else is_word_char (last u)) rest"
  by (induction u arbitrary: pw) auto

lemma match_suffix_here_inside:
  "is_word_char c \<Longrightarrow> match_suffix_here True (c # cs) = None"
  by (simp add: match_suffix_here_def word_boundary_def)

lemma strip_inside_word:
  "\<forall>c\<in>set u. is_word_char c \<Longrightarrow>
   strip_suffixes 0 True (u @ rest) = u @ strip_suffixes 0 True rest"
  by (induction u) (auto simp: match_suffix_here_inside)

lemma alt_matches_iff:
  assumes a: "a \<noteq> []" "\<forall>c\<in>set a. is_word_char c"
    and w: "\<forall>c\<in>set w. is_word_char c"
    and rest: "rest = [] \<or> \<not> is_word_char (hd rest)"
  shows "(prefix a (w @ rest) \<and> word_boundary (is_word_char (last a)) (drop (length a) (w @ rest)))
         \<longleftrightarrow> a = w"
proof
  assume "a = w"
  with a rest show "prefix a (w @ rest) \<and>
      word_boundary (is_word_char (last a)) (drop (length a) (w @ rest))"
    by (cases rest) (auto simp: word_boundary_def)
next
  assume h: "prefix a (w @ rest) \<and>
      word_boundary (is_word_char (last a)) (drop (length a) (w @ rest))"
  then have "prefix a w \<or> (\<exists>us. us \<noteq> [] \<and> prefix us rest \<and> a = w @ us)"
    by (auto simp: prefix_append)
  then have pw: "prefix a w"
  proof
    assume "\<exists>us. us \<noteq> [] \<and> prefix us rest \<and> a = w @ us"
    then obtain us where us: "us \<noteq> []" "prefix us rest" "a = w @ us" by blast
    then have "hd us = hd rest" "rest \<noteq> []" by (auto simp: prefix_def)
    with rest us a(2) have False by (cases us) auto
    then show ?thesis ..
  qed simp
  then obtain w' where w': "w = a @ w'" by (auto simp: prefix_def)
  have la: "is_word_char (last a)" using a by simp
  from h w' la have "\<not> (case w' @ rest of [] \<Rightarrow> False | c # _ \<Rightarrow> is_word_char c)"
    by (simp add: word_boundary_def)
  with w w' have "w' = []" by (cases w') auto
  with w' show "a = w" by simp
qed

lemma match_alternatives_word:
  assumes as: "\<forall>a\<in>set as. a \<noteq> [] \<and> (\<forall>c\<in>set a. is_word_char c)"
    and w: "\<forall>c\<in>set w. is_word_char c"
    and rest: "rest = [] \<or> \<not> is_word_char (hd rest)"
  shows "match_alternatives as (w @ rest) = (if w \<in> set as then Some (length w) else None)"
  using as
proof (induction as)
  case Nil
  then show ?case by simp
next
  case (Cons a as)
  then have a: "a \<noteq> []" "\<forall>c\<in>set a. is_word_char c" by auto
  from alt_matches_iff[OF a w rest] Cons show ?case by auto
qed

lemma match_suffix_here_word:
  assumes "w \<noteq> []" "\<forall>c\<in>set w. is_word_char c" "rest = [] \<or> \<not> is_word_char (hd rest)"
  shows "match_suffix_here False (w @ rest) =
         (if w \<in> set suffix_alternatives then Some (length w) else None)"
proof -
  have "word_boundary False (w @ rest)"
    using assms(1,2) by (cases w) (auto simp: word_boundary_def)
  then show ?thesis
    using match_alternatives_word[OF _ assms(2,3), of suffix_alternatives] suffix_alternatives_word
    by (simp add: match_suffix_here_def)
qed

lemma strip_word:
  assumes "w \<noteq> []" "\<forall>c\<in>set w. is_word_char c" "rest = [] \<or> \<not> is_word_char (hd rest)"
  shows "strip_suffixes 0 False (w @ rest) =
         (if w \<in> set suffix_alternatives then [] else w) @ strip_suffixes 0 False rest"
proof -
  from assms(1) obtain c w' where w: "w = c # w'" by (cases w) auto
  have m: "match_suffix_here False (c # w' @ rest) =
         (if w \<in> set suffix_alternatives then Some (length w) else None)"
    using match_suffix_here_word[OF assms] w by simp
  have c: "is_word_char c" and w': "\<forall>c\<in>set w'. is_word_char c" using assms(2) w by auto
  show ?thesis
  proof (cases "w \<in> set suffix_alternatives")
    case True
    then have "strip_suffixes 0 False (w @ rest) = strip_suffixes (length w') True (w' @ rest)"
      using m w c by simp
    also have "\<dots> = strip_suffixes 0 (if w' = [] then True else is_word_char (last w')) rest"
      by (rule strip_skip)
    also have "\<dots> = strip_suffixes 0 False rest"
      by (rule strip_pw_irrelevant[OF assms(3)])
    finally show ?thesis using True by simp
  next
    case False
    then have "strip_suffixes 0 False (w @ rest) = c # strip_suffixes 0 True (w' @ rest)"
      using m w c by simp
    also have "\<dots> = c # w' @ strip_suffixes 0 True rest"
      using strip_inside_word[OF w'] by simp
    also have "strip_suffixes 0 True rest = strip_suffixes 0 False rest"
      by (rule strip_pw_irrelevant[OF assms(3)])
    finally show ?thesis using False w by simp
  qed
qed

subsection \<open>The scans agree with the contract\<close>

lemma runs_Cons_shape: "\<exists>r rs. runs P (c # cs) = (c # r) # rs"
  by (induction cs arbitrary: c) (auto split: list.splits)

lemma runs_Cons_Cons:
  "runs P (c # d # ds) =
     (if P c = P d then (c # hd (runs P (d # ds))) # tl (runs P (d # ds))
      else [c] # runs P (d # ds))"
proof -
  obtain r rs where "runs P (d # ds) = (d # r) # rs" using runs_Cons_shape[of P d ds] by blast
  then show ?thesis by (simp del: runs.simps add: runs.simps(2)[of P c "d # ds"])
qed

lemma runs_word_prefix:
  assumes "w \<noteq> []" "\<forall>c\<in>set w. P c" "rest = [] \<or> \<not> P (hd rest)"
  shows "runs P (w @ rest) = w # runs P rest"
  using assms(1,2)
proof (induction w)
  case Nil
  then show ?case by simp
next
  case (Cons c w)
  show ?case
  proof (cases w)
    case Nil
    show ?thesis
    proof (cases rest)
      case (Cons d ds)
      with assms(3) have "\<not> P d" by simp
      moreover obtain r rs where "runs P (d # ds) = (d # r) # rs" using runs_Cons_shape[of P d ds] by blast
      ultimately show ?thesis using Cons.prems Nil Cons
        by (simp del: runs.simps add: runs.simps(2)[of P c "d # ds"])
    qed (simp add: Nil)
  next
    case (Cons d w')
    with Cons.IH Cons.prems have ih: "runs P (d # w' @ rest) = (d # w') # runs P rest" by simp
    have "P c = P d" using Cons.prems Cons by simp
    with ih show ?thesis using Cons
      by (simp del: runs.simps add: runs.simps(2)[of P c "d # w' @ rest"])
  qed
qed

lemma remove_suffix_words_nonword:
  assumes "\<not> is_word_char c"
  shows "remove_suffix_words (c # cs) = c # remove_suffix_words cs"
proof (cases cs)
  case Nil
  with assms suffix_alternatives_word[of "[c]"] show ?thesis
    by (auto simp: remove_suffix_words_def)
next
  case (Cons d ds)
  obtain r rs where r: "runs is_word_char (d # ds) = (d # r) # rs"
    using runs_Cons_shape[of _ d ds] by blast
  have k1: "[c] \<notin> set suffix_alternatives" "c # d # r \<notin> set suffix_alternatives"
    using assms suffix_alternatives_word by fastforce+
  have k2: "\<not> is_word_char d \<Longrightarrow> d # r \<notin> set suffix_alternatives"
    using suffix_alternatives_word by fastforce
  show ?thesis
    using k1 k2 assms r unfolding Cons remove_suffix_words_def runs_Cons_Cons
    by auto
qed

lemma remove_suffix_words_word:
  assumes "w \<noteq> []" "\<forall>c\<in>set w. is_word_char c" "rest = [] \<or> \<not> is_word_char (hd rest)"
  shows "remove_suffix_words (w @ rest) =
         (if w \<in> set suffix_alternatives then [] else w) @ remove_suffix_words rest"
  by (simp add: remove_suffix_words_def runs_word_prefix[OF assms])

lemma strip_suffixes_eq_remove_suffix_words:
  "strip_suffixes 0 False s = remove_suffix_words s"
proof (induction s rule: word_induct)
  case Nil
  show ?case by (simp add: remove_suffix_words_def)
next
  case (NonWord c cs)
  then show ?case by (simp add: strip_nonword remove_suffix_words_nonword del: strip_suffixes.simps(3))
next
  case (Word w rest)
  from strip_word[OF Word(1,2,3)] remove_suffix_words_word[OF Word(1,2,3)] Word(4)
  show ?case by simp
qed

lemma collapse_ws_True_space:
  "is_space d \<Longrightarrow> CHR '' '' # collapse_ws True (d # ds) = collapse_ws False (d # ds)"
  by simp

lemma collapse_ws_eq_collapse_runs: "collapse_ws False s = collapse_runs s"
proof (induction s rule: induct_list012)
  case 1
  show ?case by (simp add: collapse_runs_def)
next
  case (2 c)
  show ?case by (simp add: collapse_runs_def)
next
  case (3 c d ds)
  obtain r rs where r: "runs is_space (d # ds) = (d # r) # rs"
    using runs_Cons_shape[of _ d ds] by blast
  from 3(2) have ih: "collapse_ws False (d # ds) = collapse_runs (d # ds)" .
  show ?case
    using ih r unfolding collapse_runs_def runs_Cons_Cons
    by (cases "is_space c"; cases "is_space d") (simp_all del: runs.simps)
qed

subsection \<open>A normalized key is a fixed point of every stage\<close>

lemma strip_length: "length (strip_suffixes k pw s) \<le> length s"
  by (induction k pw s rule: strip_suffixes.induct) (auto split: option.splits)

lemma strip_fixed_nonword:
  "\<not> is_word_char c \<Longrightarrow>
   (strip_suffixes 0 False (c # cs) = c # cs) = (strip_suffixes 0 False cs = cs)"
  by (simp add: strip_nonword del: strip_suffixes.simps(3))

lemma strip_fixed_word:
  assumes "w \<noteq> []" "\<forall>c\<in>set w. is_word_char c" "rest = [] \<or> \<not> is_word_char (hd rest)"
  shows "(strip_suffixes 0 False (w @ rest) = w @ rest) =
         (w \<notin> set suffix_alternatives \<and> strip_suffixes 0 False rest = rest)"
proof (cases "w \<in> set suffix_alternatives")
  case True
  have "length (strip_suffixes 0 False rest) < length (w @ rest)"
    using strip_length[of 0 False rest] assms(1) by (cases w) auto
  then have "strip_suffixes 0 False rest \<noteq> w @ rest" by auto
  with True show ?thesis by (simp add: strip_word[OF assms])
next
  case False
  then show ?thesis by (simp add: strip_word[OF assms])
qed

lemma hd_strip_nonword:
  "rest = [] \<or> \<not> is_word_char (hd rest) \<Longrightarrow>
   strip_suffixes 0 False rest = [] \<or> \<not> is_word_char (hd (strip_suffixes 0 False rest))"
  by (cases rest) (simp_all add: strip_nonword del: strip_suffixes.simps(3))

lemma strip_idem:
  "strip_suffixes 0 False (strip_suffixes 0 False s) = strip_suffixes 0 False s"
proof (induction s rule: word_induct)
  case Nil
  show ?case by simp
next
  case (NonWord c cs)
  then show ?case by (simp add: strip_nonword del: strip_suffixes.simps(3))
next
  case (Word w rest)
  show ?case
  proof (cases "w \<in> set suffix_alternatives")
    case True
    with Word show ?thesis by (simp add: strip_word)
  next
    case False
    have "strip_suffixes 0 False (w @ strip_suffixes 0 False rest) =
          w @ strip_suffixes 0 False (strip_suffixes 0 False rest)"
      using strip_word[OF Word(1,2) hd_strip_nonword[OF Word(3)]] False by simp
    with Word False show ?thesis by (simp add: strip_word)
  qed
qed

lemma collapse_length: "length (collapse_ws ps s) \<le> length s"
  by (induction s arbitrary: ps) (auto simp: le_SucI)

lemma collapse_nonspace_prefix:
  "\<forall>c\<in>set w. \<not> is_space c \<Longrightarrow>
   collapse_ws ps (w @ rest) = w @ collapse_ws (if w = [] then ps else False) rest"
  by (induction w arbitrary: ps) auto

lemma hd_collapse_nonword:
  "rest = [] \<or> \<not> is_word_char (hd rest) \<Longrightarrow>
   collapse_ws False rest = [] \<or> \<not> is_word_char (hd (collapse_ws False rest))"
  by (cases rest) (auto simp: space_not_word)

lemma strip_fixed_collapse:
  "\<forall>ps. strip_suffixes 0 False s = s \<longrightarrow>
        strip_suffixes 0 False (collapse_ws ps s) = collapse_ws ps s"
proof (induction s rule: word_induct)
  case Nil
  show ?case by simp
next
  case (NonWord c cs)
  show ?case
  proof (intro allI impI)
    fix ps assume "strip_suffixes 0 False (c # cs) = c # cs"
    with strip_fixed_nonword[OF NonWord(1)] have cs: "strip_suffixes 0 False cs = cs" by blast
    with NonWord show "strip_suffixes 0 False (collapse_ws ps (c # cs)) = collapse_ws ps (c # cs)"
      by (simp add: strip_nonword space_not_word del: strip_suffixes.simps(3))
  qed
next
  case (Word w rest)
  show ?case
  proof (intro allI impI)
    fix ps assume "strip_suffixes 0 False (w @ rest) = w @ rest"
    then have w: "w \<notin> set suffix_alternatives" and r: "strip_suffixes 0 False rest = rest"
      by (simp_all add: strip_fixed_word[OF Word(1,2,3)])
    have nsp: "\<forall>c\<in>set w. \<not> is_space c" using Word(2) word_not_space by blast
    have c: "collapse_ws ps (w @ rest) = w @ collapse_ws False rest"
      using collapse_nonspace_prefix[OF nsp] Word(1) by simp
    have "strip_suffixes 0 False (collapse_ws False rest) = collapse_ws False rest"
      using Word(4) r by blast
    then show "strip_suffixes 0 False (collapse_ws ps (w @ rest)) = collapse_ws ps (w @ rest)"
      unfolding c using w
      by (simp add: strip_fixed_word[OF Word(1,2) hd_collapse_nonword[OF Word(3)]])
  qed
qed

lemma strip_fixed_dropWhile:
  "strip_suffixes 0 False s = s \<Longrightarrow>
   strip_suffixes 0 False (dropWhile is_space s) = dropWhile is_space s"
proof (induction s)
  case Nil
  then show ?case by simp
next
  case (Cons c cs)
  show ?case
  proof (cases "is_space c")
    case True
    then have "\<not> is_word_char c" using word_not_space by blast
    with Cons True show ?thesis by (simp add: strip_fixed_nonword del: strip_suffixes.simps(3))
  next
    case False
    with Cons show ?thesis by (simp del: strip_suffixes.simps(3))
  qed
qed

lemma trimEnd_Cons:
  "rev (dropWhile is_space (rev (c # cs))) =
     (if \<forall>x\<in>set (c # cs). is_space x then [] else c # rev (dropWhile is_space (rev cs)))"
  by (auto simp: dropWhile_append)

lemma trimEnd_nonspace_prefix:
  assumes "w \<noteq> []" "\<forall>c\<in>set w. \<not> is_space c"
  shows "rev (dropWhile is_space (rev (w @ rest))) = w @ rev (dropWhile is_space (rev rest))"
proof -
  have "dropWhile is_space (rev w) = rev w"
    using assms by (cases "rev w") auto
  then show ?thesis by (auto simp: dropWhile_append)
qed

lemma hd_trimEnd:
  "rev (dropWhile is_space (rev s)) = [] \<or> hd (rev (dropWhile is_space (rev s))) = hd s"
  by (cases s) (auto simp: dropWhile_append)

lemma strip_fixed_trimEnd:
  "strip_suffixes 0 False s = s \<longrightarrow>
   strip_suffixes 0 False (rev (dropWhile is_space (rev s))) = rev (dropWhile is_space (rev s))"
proof (induction s rule: word_induct)
  case Nil
  show ?case by simp
next
  case (NonWord c cs)
  show ?case
  proof
    assume "strip_suffixes 0 False (c # cs) = c # cs"
    with strip_fixed_nonword[OF NonWord(1)] have cs: "strip_suffixes 0 False cs = cs" by blast
    with NonWord show "strip_suffixes 0 False (rev (dropWhile is_space (rev (c # cs)))) =
        rev (dropWhile is_space (rev (c # cs)))"
      unfolding trimEnd_Cons by (simp add: strip_fixed_nonword del: strip_suffixes.simps(3))
  qed
next
  case (Word w rest)
  show ?case
  proof
    assume "strip_suffixes 0 False (w @ rest) = w @ rest"
    then have w: "w \<notin> set suffix_alternatives" and r: "strip_suffixes 0 False rest = rest"
      by (simp_all add: strip_fixed_word[OF Word(1,2,3)])
    have nsp: "\<forall>c\<in>set w. \<not> is_space c" using Word(2) word_not_space by blast
    let ?t = "rev (dropWhile is_space (rev rest))"
    have t: "?t = [] \<or> \<not> is_word_char (hd ?t)"
      using hd_trimEnd[of rest] Word(3) by auto
    have "strip_suffixes 0 False ?t = ?t" using Word(4) r by blast
    then show "strip_suffixes 0 False (rev (dropWhile is_space (rev (w @ rest)))) =
        rev (dropWhile is_space (rev (w @ rest)))"
      unfolding trimEnd_nonspace_prefix[OF Word(1) nsp] using w
      by (simp add: strip_fixed_word[OF Word(1,2) t])
  qed
qed

lemma strip_fixed_trim:
  "strip_suffixes 0 False s = s \<Longrightarrow> strip_suffixes 0 False (trim s) = trim s"
  unfolding trim_def using strip_fixed_dropWhile strip_fixed_trimEnd by blast

lemma collapse_idem: "collapse_ws ps (collapse_ws ps s) = collapse_ws ps s"
  by (induction s arbitrary: ps) (auto simp: space_char_is_space)

lemma collapse_fixed_dropWhile:
  "collapse_ws ps s = s \<Longrightarrow>
   collapse_ws ps' (dropWhile is_space s) = dropWhile is_space s"
proof (induction s arbitrary: ps ps')
  case Nil
  then show ?case by simp
next
  case (Cons c cs)
  show ?case
  proof (cases "is_space c")
    case True
    have ne: "collapse_ws True cs \<noteq> c # cs"
      using collapse_length[of True cs] by (metis impossible_Cons)
    with Cons.prems True have "collapse_ws True cs = cs" by (cases ps) auto
    with Cons.IH True show ?thesis by simp
  next
    case False
    with Cons.prems show ?thesis by simp
  qed
qed

lemma collapse_fixed_trimEnd:
  "collapse_ws ps s = s \<Longrightarrow>
   collapse_ws ps (rev (dropWhile is_space (rev s))) = rev (dropWhile is_space (rev s))"
proof (induction s arbitrary: ps)
  case Nil
  then show ?case by simp
next
  case (Cons c cs)
  show ?case
  proof (cases "is_space c")
    case True
    have ne: "collapse_ws True cs \<noteq> c # cs"
      using collapse_length[of True cs] by (metis impossible_Cons)
    with Cons.prems True have ps: "\<not> ps" and c: "c = CHR '' ''" and cs: "collapse_ws True cs = cs"
      by (cases ps; auto)+
    from Cons.IH[OF cs] True ps c show ?thesis
      unfolding trimEnd_Cons by simp
  next
    case False
    with Cons.prems have "collapse_ws False cs = cs" by simp
    from Cons.IH[OF this] False show ?thesis
      unfolding trimEnd_Cons by simp
  qed
qed

lemma collapse_fixed_trim: "collapse_ws False s = s \<Longrightarrow> collapse_ws False (trim s) = trim s"
  unfolding trim_def using collapse_fixed_dropWhile collapse_fixed_trimEnd by blast

lemma dropWhile_fixed: "xs = [] \<or> \<not> P (hd xs) \<Longrightarrow> dropWhile P xs = xs"
  by (cases xs) auto

lemma trim_idem: "trim (trim s) = trim s"
proof -
  let ?t = "dropWhile is_space s"
  let ?u = "rev (dropWhile is_space (rev ?t))"
  have t: "?t = [] \<or> \<not> is_space (hd ?t)" by (metis hd_dropWhile)
  have "?u = [] \<or> \<not> is_space (hd ?u)"
  proof (cases "?t = []")
    case True
    then show ?thesis by (auto dest: set_dropWhileD)
  next
    case False
    with t hd_trimEnd[of ?t] show ?thesis by metis
  qed
  then have "dropWhile is_space ?u = ?u" by (rule dropWhile_fixed)
  then show ?thesis by (simp add: trim_def)
qed

lemma set_strip: "set (strip_suffixes k pw s) \<subseteq> set s"
  by (induction k pw s rule: strip_suffixes.induct) (auto split: option.splits)

lemma set_collapse: "set (collapse_ws ps s) \<subseteq> insert (CHR '' '') (set s)"
  by (induction s arbitrary: ps) auto

lemma set_trim: "set (trim s) \<subseteq> set s"
  unfolding trim_def by (auto dest!: set_dropWhileD)

lemma set_replace_char_all: "set (replace_char_all c r s) \<subseteq> (set s - {c}) \<union> set r"
  by (auto simp: replace_char_all_def split: if_splits)

lemma replace_char_all_absent: "c \<notin> set s \<Longrightarrow> replace_char_all c r s = s"
  by (induction s) (auto simp: replace_char_all_def)

lemma toLowerCase_fixed: "\<forall>c\<in>set s. toLowerCase_char c = c \<Longrightarrow> toLowerCase s = s"
  by (simp add: toLowerCase_def map_idI)

lemma normalizeName_chars:
  assumes "c \<in> set (normalizeName x)"
  shows "toLowerCase_char c = c \<and> c \<noteq> CHR ''.'' \<and> c \<noteq> CHR 0x27 \<and> c \<noteq> CHR ''-''"
proof -
  let ?l = "toLowerCase x"
  let ?a = "replace_char_all (CHR ''.'') [] ?l"
  let ?b = "replace_char_all (CHR 0x27) [] ?a"
  let ?z = "replace_char_all (CHR ''-'') '' '' ?b"
  have sp: "toLowerCase_char (CHR '' '') = CHR '' ''" by code_simp
  from assms have "c = CHR '' '' \<or> c \<in> set ?z"
    unfolding normalizeName_def using set_trim set_collapse set_strip by fastforce
  moreover have "set ?z \<subseteq> insert (CHR '' '') (set ?b - {CHR ''-''})"
    using set_replace_char_all[of "CHR ''-''" "'' ''" ?b] by auto
  moreover have "set ?b \<subseteq> set ?a - {CHR 0x27}"
    using set_replace_char_all[of "CHR 0x27" "[]" ?a] by auto
  moreover have "set ?a \<subseteq> set ?l - {CHR ''.''}"
    using set_replace_char_all[of "CHR ''.''" "[]" ?l] by auto
  moreover have "\<forall>d\<in>set ?l. toLowerCase_char d = d"
    by (auto simp: toLowerCase_def toLowerCase_char_idem)
  ultimately show ?thesis using sp by auto
qed

lemma normalizeName_idem: "normalizeName (normalizeName x) = normalizeName x"
proof -
  let ?y = "normalizeName x"
  have chars: "\<forall>c\<in>set ?y. toLowerCase_char c = c \<and> c \<noteq> CHR ''.'' \<and> c \<noteq> CHR 0x27 \<and> c \<noteq> CHR ''-''"
    using normalizeName_chars by blast
  have low: "toLowerCase ?y = ?y" using chars by (simp add: toLowerCase_fixed)
  have dot: "replace_char_all (CHR ''.'') [] ?y = ?y"
    using chars by (intro replace_char_all_absent) blast
  have apo: "replace_char_all (CHR 0x27) [] ?y = ?y"
    using chars by (intro replace_char_all_absent) blast
  have hyp: "replace_char_all (CHR ''-'') '' '' ?y = ?y"
    using chars by (intro replace_char_all_absent) blast
  have str: "strip_suffixes 0 False ?y = ?y"
    unfolding normalizeName_def
    by (intro strip_fixed_trim strip_fixed_collapse[rule_format] strip_idem)
  have col: "collapse_ws False ?y = ?y"
    unfolding normalizeName_def by (intro collapse_fixed_trim collapse_idem)
  have tr: "trim ?y = ?y" unfolding normalizeName_def by (rule trim_idem)
  show ?thesis
    by (subst (1) normalizeName_def) (simp only: low dot apo hyp str col tr)
qed

lemma replace_char_all_delete: "replace_char_all c [] s = filter (\<lambda>d. d \<noteq> c) s"
  by (induction s) (auto simp: replace_char_all_def)

lemma replace_char_all_single: "replace_char_all c [r] s = map (\<lambda>d. if d = c then r else d) s"
  by (induction s) (auto simp: replace_char_all_def)

lemma normalizeName_eq_spec: "normalizeName name = normalize_spec name"
  unfolding normalizeName_def normalize_spec_def
  by (simp add: replace_char_all_delete replace_char_all_single toLowerCase_def
      strip_suffixes_eq_remove_suffix_words collapse_ws_eq_collapse_runs conj_commute)

text \<open>
  C8. For every input string the normalizer produces the canonical key obtained by
  lower-casing, removing periods and apostrophes, replacing hyphens with spaces, removing the
  whole-word suffix tokens jr, sr, ii, iii, iv, collapsing whitespace runs to a single space
  and trimming; and it maps "Cam Ward" to "cam ward", "D'Andre Swift Jr." to "dandre swift"
  and "Ja-Marr Chase" to "ja marr chase".
\<close>

theorem normalizeName_contract:
  "normalizeName name =
     trim (collapse_runs (remove_suffix_words
       (map (\<lambda>c. if c = CHR ''-'' then CHR '' '' else c)
         (filter (\<lambda>c. c \<noteq> CHR ''.'' \<and> c \<noteq> CHR 0x27) (map toLowerCase_char name)))))
   \<and> normalizeName ''Cam Ward'' = ''cam ward''
   \<and> normalizeName ''D'Andre Swift Jr.'' = ''dandre swift''
   \<and> normalizeName ''Ja-Marr Chase'' = ''ja marr chase''"
proof (intro conjI)
  show "normalizeName name =
     trim (collapse_runs (remove_suffix_words
       (map (\<lambda>c. if c = CHR ''-'' then CHR '' '' else c)
         (filter (\<lambda>c. c \<noteq> CHR ''.'' \<and> c \<noteq> CHR 0x27) (map toLowerCase_char name)))))"
    using normalizeName_eq_spec[of name] by (simp add: normalize_spec_def)
  show "normalizeName ''Cam Ward'' = ''cam ward''" by code_simp
  show "normalizeName ''D'Andre Swift Jr.'' = ''dandre swift''" by code_simp
  show "normalizeName ''Ja-Marr Chase'' = ''ja marr chase''" by code_simp
qed

text \<open>
  C9. The normalizer is a function of its input alone, and it is idempotent: normalizing a
  normalized key gives the same key.
\<close>

theorem normalizeName_idempotent: "normalizeName (normalizeName x) = normalizeName x"
  by (rule normalizeName_idem)

section \<open>Properties of the projection loader\<close>

lemma points_text_priority:
  "points_text row =
     (case filter (\<lambda>v. v \<noteq> []) (map (column row) [''fantasy'', ''FPTS'', ''points'']) of
        [] \<Rightarrow> ''0''
      | v # _ \<Rightarrow> v)"
  by (simp add: points_text_def or_str_def)

lemma parseFloat_zero: "parseFloat ''0'' = Some (Finite 0)"
  by code_simp

lemma overflow_threshold_eq: "overflow_threshold = 2 ^ 1024 - 2 ^ 970"
  by (simp add: overflow_threshold_def)

lemma parseFloat_overflow: "parseFloat ''1e309'' = Some PosInfinity"
  by code_simp

text \<open>
  C5, as the code has it. The loader reads the points from the first non-empty column among
  \<open>fantasy\<close>, \<open>FPTS\<close>, \<open>points\<close>, in that order, and from the text "0" when all
  three are absent or empty. It admits the record exactly when the trimmed player name is
  non-empty and \<open>parseFloat\<close> of that text is a number; the record then carries the trimmed
  name, the file's position, the parsed points and the trimmed team code.
\<close>

theorem loadCsvRow_admission:
  "loadCsvRow pos row = Some r \<longleftrightarrow>
     trim (column row ''player'') \<noteq> [] \<and>
     (\<exists>points.
        parseFloat (case filter (\<lambda>v. v \<noteq> []) (map (column row) [''fantasy'', ''FPTS'', ''points'']) of
                      [] \<Rightarrow> ''0''
                    | v # _ \<Rightarrow> v) = Some points \<and>
        r = \<lparr>player = trim (column row ''player''), position = pos, fantasy = points,
              team = trim (column row ''team'')\<rparr>)"
  unfolding points_text_priority[symmetric]
  by (auto simp: loadCsvRow_def or_str_def Let_def split: option.splits)

theorem loadCsvRow_admission_witness:
  "loadCsvRow ''WR'' [''player'' \<mapsto> '' Josh Palmer '', ''fantasy'' \<mapsto> [], ''FPTS'' \<mapsto> ''12.4'',
                      ''points'' \<mapsto> ''99'', ''team'' \<mapsto> ''LAC'']
     = Some \<lparr>player = ''Josh Palmer'', position = ''WR'', fantasy = Finite 12.4, team = ''LAC''\<rparr>
   \<and> loadCsvRow ''WR'' [''player'' \<mapsto> ''Josh Palmer'', ''FPTS'' \<mapsto> ''n/a'', ''points'' \<mapsto> ''99'']
     = None
   \<and> loadCsvRow ''WR'' [''player'' \<mapsto> ''  '', ''FPTS'' \<mapsto> ''12.4''] = None"
proof -
  let ?row1 = "[''player'' \<mapsto> '' Josh Palmer '', ''fantasy'' \<mapsto> [], ''FPTS'' \<mapsto> ''12.4'',
                      ''points'' \<mapsto> ''99'', ''team'' \<mapsto> ''LAC'']"
  let ?r1 = "\<lparr>player = ''Josh Palmer'', position = ''WR'', fantasy = Finite 12.4, team = ''LAC''\<rparr>"
  have t1: "trim (column ?row1 ''player'') = ''Josh Palmer''" by code_simp
  have c1: "(case filter (\<lambda>v. v \<noteq> []) (map (column ?row1) [''fantasy'', ''FPTS'', ''points'']) of
                      [] \<Rightarrow> ''0'' | v # _ \<Rightarrow> v) = ''12.4''"
    by (simp add: column_def)
  have p1: "parseFloat ''12.4'' = Some (Finite 12.4)" by code_simp
  have m1: "trim (column ?row1 ''team'') = ''LAC''" by code_simp
  have a: "loadCsvRow ''WR'' ?row1 = Some ?r1"
    unfolding loadCsvRow_admission[of "''WR''" ?row1 ?r1] t1 c1 p1 m1 by simp
  have b: "loadCsvRow ''WR'' [''player'' \<mapsto> ''Josh Palmer'', ''FPTS'' \<mapsto> ''n/a'', ''points'' \<mapsto> ''99''] = None"
    by code_simp
  have c: "loadCsvRow ''WR'' [''player'' \<mapsto> ''  '', ''FPTS'' \<mapsto> ''12.4''] = None"
    by code_simp
  from a b c show ?thesis by blast
qed

text \<open>
  The claim as stated fails on a row without a points value: it is admitted, with 0 points.
\<close>

theorem missing_points_counterexample:
  "loadCsvRow ''QB'' [''player'' \<mapsto> ''Josh Allen'', ''team'' \<mapsto> ''BUF'']
     = Some \<lparr>player = ''Josh Allen'', position = ''QB'', fantasy = Finite 0, team = ''BUF''\<rparr>"
  by code_simp

section \<open>Properties of the matching engine\<close>

lemma NAME_ALIASES_nonempty: "NAME_ALIASES k = Some a \<Longrightarrow> a \<noteq> []"
  by (auto simp: NAME_ALIASES_def split: if_splits)

lemma lookup_match_eq_policy: "lookup_match nameIndex entry = policy_match nameIndex entry"
proof -
  let ?key = "normalizeName (e_name entry)"
  have third: "(case nameIndex ?key of None \<Rightarrow> None
                | Some candidates \<Rightarrow> (case candidates of [] \<Rightarrow> None | c # _ \<Rightarrow> Some c)) =
               (case index_get nameIndex ?key of [] \<Rightarrow> None | c # _ \<Rightarrow> Some c)"
    by (simp add: index_get_def split: option.splits)
  show ?thesis
  proof (cases "NAME_ALIASES ?key")
    case None
    then show ?thesis
      using third
      by (auto simp: lookup_match_def policy_match_def Let_def split: option.splits list.splits)
  next
    case (Some a)
    then have "a \<noteq> []" by (rule NAME_ALIASES_nonempty)
    with Some show ?thesis
      using third
      by (auto simp: lookup_match_def policy_match_def Let_def split: option.splits list.splits)
  qed
qed

text \<open>
  C2. For every roster entry the engine applies the ordered policy: the first candidate
  under the normalized name whose position is the entry's; else the first such candidate
  under the key's alias, if the key has one; else the first candidate under the normalized
  name whatever its position. Each step is tried only when the one before found nothing.
\<close>

theorem matching_policy_order: "lookup_match nameIndex entry = policy_match nameIndex entry"
  by (rule lookup_match_eq_policy)

theorem matching_policy_order_witness:
  "lookup_match
     (buildNameIndex \<lparr>qbs = [], rbs = [],
        wrs = [\<lparr>player = ''Josh Palmer'', position = ''WR'', fantasy = 12.4, team = ''LAC''\<rparr>],
        tes = [], ks = [], dsts = []\<rparr>)
     \<lparr>e_id = ''7'', e_name = ''Joshua Palmer'', e_position = ''WR'', e_isStarter = True\<rparr>
   = policy_match
     (buildNameIndex \<lparr>qbs = [], rbs = [],
        wrs = [\<lparr>player = ''Josh Palmer'', position = ''WR'', fantasy = 12.4, team = ''LAC''\<rparr>],
        tes = [], ks = [], dsts = []\<rparr>)
     \<lparr>e_id = ''7'', e_name = ''Joshua Palmer'', e_position = ''WR'', e_isStarter = True\<rparr>
   \<and> policy_match
     (buildNameIndex \<lparr>qbs = [], rbs = [],
        wrs = [\<lparr>player = ''Josh Palmer'', position = ''WR'', fantasy = 12.4, team = ''LAC''\<rparr>],
        tes = [], ks = [], dsts = []\<rparr>)
     \<lparr>e_id = ''7'', e_name = ''Joshua Palmer'', e_position = ''WR'', e_isStarter = True\<rparr>
   = Some \<lparr>player = ''Josh Palmer'', position = ''WR'', fantasy = 12.4\<rparr>"
proof (rule conjI)
  show "lookup_match
     (buildNameIndex \<lparr>qbs = [], rbs = [],
        wrs = [\<lparr>player = ''Josh Palmer'', position = ''WR'', fantasy = 12.4, team = ''LAC''\<rparr>],
        tes = [], ks = [], dsts = []\<rparr>)
     \<lparr>e_id = ''7'', e_name = ''Joshua Palmer'', e_position = ''WR'', e_isStarter = True\<rparr>
   = policy_match
     (buildNameIndex \<lparr>qbs = [], rbs = [],
        wrs = [\<lparr>player = ''Josh Palmer'', position = ''WR'', fantasy = 12.4, team = ''LAC''\<rparr>],
        tes = [], ks = [], dsts = []\<rparr>)
     \<lparr>e_id = ''7'', e_name = ''Joshua Palmer'', e_position = ''WR'', e_isStarter = True\<rparr>"
    by (rule matching_policy_order)
  show "policy_match
     (buildNameIndex \<lparr>qbs = [], rbs = [],
        wrs = [\<lparr>player = ''Josh Palmer'', position = ''WR'', fantasy = 12.4, team = ''LAC''\<rparr>],
        tes = [], ks = [], dsts = []\<rparr>)
     \<lparr>e_id = ''7'', e_name = ''Joshua Palmer'', e_position = ''WR'', e_isStarter = True\<rparr>
   = Some \<lparr>player = ''Josh Palmer'', position = ''WR'', fantasy = 12.4\<rparr>"
    by code_simp
qed

text \<open>
  C10. When an entry is resolved through the position-agnostic fallback (no candidate of its
  position under its normalized name or under the alias, some candidate under the normalized
  name), the emitted MatchedPlayer carries the entry's own display name, position and starter
  flag, and the points of the first candidate under the name, whose position differs from
  the entry's.
\<close>

theorem fallback_reports_entry:
  assumes "find (\<lambda>m. position m = e_position entry)
             (index_get nameIndex (normalizeName (e_name entry))) = None"
    and "\<forall>a. NAME_ALIASES (normalizeName (e_name entry)) = Some a \<longrightarrow>
             find (\<lambda>m. position m = e_position entry) (index_get nameIndex a) = None"
    and "nameIndex (normalizeName (e_name entry)) = Some (c # cs)"
  shows "estimate_entry nameIndex dstMap (tot, details) entry =
           (tot + fantasy c,
            details @ [\<lparr>m_name = e_name entry, m_position = e_position entry,
                         m_projected = fantasy c, m_isStarter = e_isStarter entry\<rparr>])
         \<and> position c \<noteq> e_position entry"
proof -
  have cands: "index_get nameIndex (normalizeName (e_name entry)) = c # cs"
    using assms(3) by (simp add: index_get_def)
  have "policy_match nameIndex entry = Some c"
    using assms(1,2) cands
    by (auto simp: policy_match_def Let_def split: option.splits)
  then have "lookup_match nameIndex entry = Some c"
    by (simp add: lookup_match_eq_policy)
  moreover have "position c \<noteq> e_position entry"
    using assms(1) cands by (auto simp: find_None_iff)
  ultimately show ?thesis by (simp add: estimate_entry_def detail_def)
qed

theorem fallback_reports_entry_witness:
  "estimate_entry [''taysom hill'' \<mapsto> [\<lparr>player = ''Taysom Hill'', position = ''QB'', fantasy = 150\<rparr>]]
       [] (10, [])
       \<lparr>e_id = ''3'', e_name = ''Taysom Hill'', e_position = ''TE'', e_isStarter = False\<rparr>
     = (160, [\<lparr>m_name = ''Taysom Hill'', m_position = ''TE'', m_projected = 150,
                m_isStarter = False\<rparr>])"
proof -
  let ?idx = "[''taysom hill'' \<mapsto> [\<lparr>player = ''Taysom Hill'', position = ''QB'', fantasy = 150::real\<rparr>]]"
  let ?e = "\<lparr>e_id = ''3'', e_name = ''Taysom Hill'', e_position = ''TE'', e_isStarter = False\<rparr>"
  have n: "normalizeName (e_name ?e) = ''taysom hill''" by code_simp
  have h1: "find (\<lambda>m. position m = e_position ?e) (index_get ?idx (normalizeName (e_name ?e))) = None"
    unfolding n by (simp add: index_get_def)
  have h2: "\<forall>a. NAME_ALIASES (normalizeName (e_name ?e)) = Some a \<longrightarrow>
             find (\<lambda>m. position m = e_position ?e) (index_get ?idx a) = None"
    unfolding n by (simp add: NAME_ALIASES_def)
  have h3: "?idx (normalizeName (e_name ?e)) =
      Some (\<lparr>player = ''Taysom Hill'', position = ''QB'', fantasy = 150\<rparr> # [])"
    unfolding n by simp
  have "estimate_entry ?idx [] (10, []) ?e =
          (10 + fantasy \<lparr>player = ''Taysom Hill'', position = ''QB'', fantasy = 150::real\<rparr>,
           [] @ [\<lparr>m_name = e_name ?e, m_position = e_position ?e,
                   m_projected = fantasy \<lparr>player = ''Taysom Hill'', position = ''QB'', fantasy = 150::real\<rparr>,
                   m_isStarter = e_isStarter ?e\<rparr>])"
    by (rule conjunct1[OF fallback_reports_entry[OF h1 h2 h3]])
  also have "\<dots> = (160, [\<lparr>m_name = ''Taysom Hill'', m_position = ''TE'', m_projected = 150,
                m_isStarter = False\<rparr>])"
    by simp
  finally show ?thesis .
qed

lemma estimate_entry_details_length:
  "length (snd (estimate_entry nameIndex dstMap st entry)) \<le> Suc (length (snd st))"
proof -
  have "length (snd (dst_loop entry dstMap s)) \<le> Suc (length (snd s))" for s
    by (induction entry dstMap s rule: dst_loop.induct) (auto simp: Let_def)
  then show ?thesis
    by (auto simp: estimate_entry_def split: option.splits)
qed

lemma estimate_entry_one_detail:
  assumes "lookup_match nameIndex entry \<noteq> None \<or>
           (e_position entry \<noteq> ''DEF'' \<and> e_position entry \<noteq> ''DST'')"
  shows "length (snd (estimate_entry nameIndex dstMap st entry)) = Suc (length (snd st))"
  using assms by (auto simp: estimate_entry_def split: option.splits)

text \<open>
  C1. Every roster entry is to produce exactly one MatchedPlayer, with zero points when
  nothing is resolved, defense entries included. The engine emits nothing for a defense
  entry that no step resolves: a roster holding only the defense "Denver Broncos", with a
  catalog whose only defense record is "Dallas D/ST" of team "DAL", gets an empty list of
  players.
\<close>

theorem unmatched_defense_emits_nothing:
  "estimateTeamPoints
     \<lparr>rosterId = ''1'', roster_teamName = ''Team 1'',
      entries = [\<lparr>e_id = ''DEN'', e_name = ''Denver Broncos'', e_position = ''DST'',
                  e_isStarter = True\<rparr>]\<rparr>
     (buildNameIndex \<lparr>qbs = [], rbs = [], wrs = [], tes = [], ks = [],
        dsts = [\<lparr>player = ''Dallas D/ST'', position = ''DST'', fantasy = 100, team = ''DAL''\<rparr>]\<rparr>)
     [\<lparr>player = ''Dallas D/ST'', position = ''DST'', fantasy = 100, team = ''DAL''\<rparr>]
   = (0, [])"
  by code_simp

section \<open>Properties of the defense rule\<close>

lemma js_includes_iff_sublist: "js_includes s sub \<longleftrightarrow> sublist sub s"
proof (induction s)
  case Nil
  show ?case by simp
next
  case (Cons c cs)
  show ?case
  proof (cases sub)
    case Nil
    then show ?thesis by simp
  next
    case (Cons d ds)
    with Cons.IH show ?thesis by (simp add: sublist_Cons_right)
  qed
qed

lemma toLowerCase_append: "toLowerCase (a @ b) = toLowerCase a @ toLowerCase b"
  by (simp add: toLowerCase_def)

lemma take_trailing: "name = f @ s \<Longrightarrow> length s = 5 \<Longrightarrow> take (length name - 5) name = f"
  by simp

lemma franchise_name_trailing:
  assumes "split_first '' D/ST'' name @ '' D/ST'' = name"
  shows "franchise_name name = split_first '' D/ST'' name"
proof -
  let ?f = "split_first '' D/ST'' name"
  have low: "toLowerCase '' D/ST'' = '' d/st''" by code_simp
  have "toLowerCase name = toLowerCase ?f @ '' d/st''"
    using assms toLowerCase_append[of ?f "'' D/ST''"] by (simp add: low)
  then have "suffix '' d/st'' (toLowerCase name)" by (metis suffixI)
  moreover have "take (length name - 5) name = ?f"
    using take_trailing[of name ?f "'' D/ST''"] assms by simp
  ultimately show ?thesis by (simp add: franchise_name_def)
qed

lemma guard_of_trailing:
  assumes "suffix '' D/ST'' name"
  shows "js_includes (toLowerCase name) ''d/st''"
proof -
  from assms obtain f where "name = f @ '' D/ST''" by (auto simp: suffix_def)
  moreover have "toLowerCase '' D/ST'' = '' '' @ ''d/st''" by code_simp
  ultimately have "toLowerCase name = (toLowerCase f @ '' '') @ ''d/st'' @ []"
    by (simp add: toLowerCase_append)
  then show ?thesis unfolding js_includes_iff_sublist sublist_def by blast
qed

lemma dst_loop_find:
  "dst_loop entry dstMap (tot, details) =
     (case find (\<lambda>r. js_includes (toLowerCase (player r)) ''d/st'' \<and>
                      (js_includes (toLowerCase (e_name entry))
                         (toLowerCase (split_first '' D/ST'' (player r))) \<or>
                       (team r \<noteq> [] \<and>
                        js_includes (toLowerCase (e_name entry)) (toLowerCase (team r)))))
             dstMap of
        None \<Rightarrow> (tot, details)
      | Some r \<Rightarrow> (tot + fantasy r, details @ [detail entry (fantasy r)]))"
  by (induction dstMap) (auto simp: Let_def)

text \<open>
  On a catalog whose defense records with "d/st" in the name are all named by a franchise
  name followed by one trailing " D/ST" in upper case, the scan matches the entry on the
  first of them whose franchise name is a case-insensitive substring of the entry's display
  name, or whose non-empty team code is one, and the entry gets that record's points. So the
  record "Denver D/ST" with team code "DEN" is matched by the entries "Denver Broncos" and
  "DEN".
\<close>

lemma defense_scan_rule:
  assumes "lookup_match nameIndex entry = None"
    and "e_position entry = ''DEF'' \<or> e_position entry = ''DST''"
    and "\<forall>r\<in>set dstMap. js_includes (toLowerCase (player r)) ''d/st'' \<longrightarrow>
           split_first '' D/ST'' (player r) @ '' D/ST'' = player r"
    and "find (\<lambda>r. suffix '' D/ST'' (player r) \<and> claimed_dst_match entry r) dstMap = Some m"
  shows "estimate_entry nameIndex dstMap (tot, details) entry =
           (tot + fantasy m,
            details @ [\<lparr>m_name = e_name entry, m_position = e_position entry,
                         m_projected = fantasy m, m_isStarter = e_isStarter entry\<rparr>])"
proof -
  have same: "(js_includes (toLowerCase (player r)) ''d/st'' \<and>
                      (js_includes (toLowerCase (e_name entry))
                         (toLowerCase (split_first '' D/ST'' (player r))) \<or>
                       (team r \<noteq> [] \<and>
                        js_includes (toLowerCase (e_name entry)) (toLowerCase (team r)))))
              = (suffix '' D/ST'' (player r) \<and> claimed_dst_match entry r)"
    if r: "r \<in> set dstMap" for r
  proof (cases "js_includes (toLowerCase (player r)) ''d/st''")
    case True
    with assms(3) r have wf: "split_first '' D/ST'' (player r) @ '' D/ST'' = player r" by blast
    then have "suffix '' D/ST'' (player r)" by (metis suffixI)
    with True franchise_name_trailing[OF wf] show ?thesis
      by (simp add: claimed_dst_match_def)
  next
    case False
    with guard_of_trailing[of "player r"] show ?thesis by blast
  qed
  have "find (\<lambda>r. js_includes (toLowerCase (player r)) ''d/st'' \<and>
                      (js_includes (toLowerCase (e_name entry))
                         (toLowerCase (split_first '' D/ST'' (player r))) \<or>
                       (team r \<noteq> [] \<and>
                        js_includes (toLowerCase (e_name entry)) (toLowerCase (team r)))))
             dstMap
        = find (\<lambda>r. suffix '' D/ST'' (player r) \<and> claimed_dst_match entry r) dstMap"
    by (rule find_cong[OF refl]) (use same in blast)
  then show ?thesis
    using assms(1,2,4) by (simp add: estimate_entry_def dst_loop_find detail_def)
qed

lemma defense_scan_denver_example:
  "estimate_entry
     (buildNameIndex \<lparr>qbs = [], rbs = [], wrs = [], tes = [], ks = [],
        dsts = [\<lparr>player = ''Dallas D/ST'', position = ''DST'', fantasy = 90, team = ''DAL''\<rparr>,
                \<lparr>player = ''Denver D/ST'', position = ''DST'', fantasy = 100, team = ''DEN''\<rparr>]\<rparr>)
     [\<lparr>player = ''Dallas D/ST'', position = ''DST'', fantasy = 90, team = ''DAL''\<rparr>,
      \<lparr>player = ''Denver D/ST'', position = ''DST'', fantasy = 100, team = ''DEN''\<rparr>]
     (0, [])
     \<lparr>e_id = ''DEN'', e_name = ''Denver Broncos'', e_position = ''DST'', e_isStarter = True\<rparr>
   = (100, [\<lparr>m_name = ''Denver Broncos'', m_position = ''DST'', m_projected = 100,
              m_isStarter = True\<rparr>])
   \<and>
   estimate_entry
     (buildNameIndex \<lparr>qbs = [], rbs = [], wrs = [], tes = [], ks = [],
        dsts = [\<lparr>player = ''Dallas D/ST'', position = ''DST'', fantasy = 90, team = ''DAL''\<rparr>,
                \<lparr>player = ''Denver D/ST'', position = ''DST'', fantasy = 100, team = ''DEN''\<rparr>]\<rparr>)
     [\<lparr>player = ''Dallas D/ST'', position = ''DST'', fantasy = 90, team = ''DAL''\<rparr>,
      \<lparr>player = ''Denver D/ST'', position = ''DST'', fantasy = 100, team = ''DEN''\<rparr>]
     (0, [])
     \<lparr>e_id = ''DEN'', e_name = ''DEN'', e_position = ''DEF'', e_isStarter = False\<rparr>
   = (100, [\<lparr>m_name = ''DEN'', m_position = ''DEF'', m_projected = 100, m_isStarter = False\<rparr>])"
proof -
  let ?dst = "[\<lparr>player = ''Dallas D/ST'', position = ''DST'', fantasy = 90::real, team = ''DAL''\<rparr>,
      \<lparr>player = ''Denver D/ST'', position = ''DST'', fantasy = 100, team = ''DEN''\<rparr>]"
  let ?idx = "buildNameIndex \<lparr>qbs = [], rbs = [], wrs = [], tes = [], ks = [], dsts = ?dst\<rparr>"
  let ?e1 = "\<lparr>e_id = ''DEN'', e_name = ''Denver Broncos'', e_position = ''DST'', e_isStarter = True\<rparr>"
  let ?e2 = "\<lparr>e_id = ''DEN'', e_name = ''DEN'', e_position = ''DEF'', e_isStarter = False\<rparr>"
  have wf: "\<forall>r\<in>set ?dst. js_includes (toLowerCase (player r)) ''d/st'' \<longrightarrow>
           split_first '' D/ST'' (player r) @ '' D/ST'' = player r"
    by code_simp
  have l1: "lookup_match ?idx ?e1 = None" by code_simp
  have p1: "e_position ?e1 = ''DEF'' \<or> e_position ?e1 = ''DST''" by simp
  have l2: "lookup_match ?idx ?e2 = None" by code_simp
  have p2: "e_position ?e2 = ''DEF'' \<or> e_position ?e2 = ''DST''" by simp
  have f1: "find (\<lambda>r. suffix '' D/ST'' (player r) \<and> claimed_dst_match ?e1 r) ?dst
            = Some \<lparr>player = ''Denver D/ST'', position = ''DST'', fantasy = 100, team = ''DEN''\<rparr>"
    by code_simp
  have f2: "find (\<lambda>r. suffix '' D/ST'' (player r) \<and> claimed_dst_match ?e2 r) ?dst
            = Some \<lparr>player = ''Denver D/ST'', position = ''DST'', fantasy = 100, team = ''DEN''\<rparr>"
    by code_simp
  from defense_scan_rule[OF l1 p1 wf f1, of 0 "[]"] defense_scan_rule[OF l2 p2 wf f2, of 0 "[]"]
  show ?thesis by simp
qed

text \<open>
  C3. A defense entry (position DEF or DST) that steps 1-3 leave unmatched is to be matched
  on the first defense record, in catalog order, whose franchise name (the record's name
  without a trailing " D/ST", in any letter case) is a case-insensitive substring of the
  entry's display name, or whose team code is one. The engine misses two kinds of record
  that \<open>isDstRostered\<close> accepts for the same names: "Denver d/st" passes the test for
  "d/st" but is split at the upper-case " D/ST" only, so its whole name is looked for in
  "Denver Broncos"; "Denver" with team code "DEN" fails the test for "d/st" and is skipped.
  In both cases nothing is matched for the entry "Denver Broncos".
\<close>

theorem defense_scan_misses_record:
  "claimed_dst_match
     \<lparr>e_id = ''DEN'', e_name = ''Denver Broncos'', e_position = ''DST'', e_isStarter = True\<rparr>
     \<lparr>player = ''Denver d/st'', position = ''DST'', fantasy = 100, team = []\<rparr>
   \<and> lookup_match
     (buildNameIndex \<lparr>qbs = [], rbs = [], wrs = [], tes = [], ks = [],
        dsts = [\<lparr>player = ''Denver d/st'', position = ''DST'', fantasy = 100, team = []\<rparr>]\<rparr>)
     \<lparr>e_id = ''DEN'', e_name = ''Denver Broncos'', e_position = ''DST'', e_isStarter = True\<rparr>
     = None
   \<and> estimate_entry
     (buildNameIndex \<lparr>qbs = [], rbs = [], wrs = [], tes = [], ks = [],
        dsts = [\<lparr>player = ''Denver d/st'', position = ''DST'', fantasy = 100, team = []\<rparr>]\<rparr>)
     [\<lparr>player = ''Denver d/st'', position = ''DST'', fantasy = 100, team = []\<rparr>]
     (0, [])
     \<lparr>e_id = ''DEN'', e_name = ''Denver Broncos'', e_position = ''DST'', e_isStarter = True\<rparr>
     = (0, [])
   \<and> isDstRostered [toLowerCase ''Denver Broncos''] ''Denver d/st'' []
   \<and> claimed_dst_match
     \<lparr>e_id = ''DEN'', e_name = ''Denver Broncos'', e_position = ''DST'', e_isStarter = True\<rparr>
     \<lparr>player = ''Denver'', position = ''DST'', fantasy = 100, team = ''DEN''\<rparr>
   \<and> lookup_match
     (buildNameIndex \<lparr>qbs = [], rbs = [], wrs = [], tes = [], ks = [],
        dsts = [\<lparr>player = ''Denver'', position = ''DST'', fantasy = 100, team = ''DEN''\<rparr>]\<rparr>)
     \<lparr>e_id = ''DEN'', e_name = ''Denver Broncos'', e_position = ''DST'', e_isStarter = True\<rparr>
     = None
   \<and> estimate_entry
     (buildNameIndex \<lparr>qbs = [], rbs = [], wrs = [], tes = [], ks = [],
        dsts = [\<lparr>player = ''Denver'', position = ''DST'', fantasy = 100, team = ''DEN''\<rparr>]\<rparr>)
     [\<lparr>player = ''Denver'', position = ''DST'', fantasy = 100, team = ''DEN''\<rparr>]
     (0, [])
     \<lparr>e_id = ''DEN'', e_name = ''Denver Broncos'', e_position = ''DST'', e_isStarter = True\<rparr>
     = (0, [])
   \<and> isDstRostered [toLowerCase ''Denver Broncos''] ''Denver'' ''DEN''"
  by code_simp

section \<open>Properties of the ranking aggregator\<close>

lemma mset_insert_sorted: "mset (insert_sorted cmp x ys) = add_mset x (mset ys)"
  by (induction ys) auto

lemma mset_js_sort: "mset (js_sort cmp xs) = mset xs"
  by (induction xs) (auto simp: js_sort_def mset_insert_sorted)

lemma set_js_sort: "set (js_sort cmp xs) = set xs"
  by (metis mset_js_sort set_mset_mset)

lemma length_js_sort: "length (js_sort cmp xs) = length xs"
  by (metis mset_js_sort size_mset)

lemma set_insert_sorted: "set (insert_sorted cmp x ys) = insert x (set ys)"
  by (metis mset_insert_sorted set_mset_mset set_mset_add_mset_insert)

lemma sorted_insert_sorted:
  fixes key :: "'a \<Rightarrow> real"
  assumes "sorted_wrt (\<lambda>a b. key b \<le> key a) ys"
  shows "sorted_wrt (\<lambda>a b. key b \<le> key a) (insert_sorted (\<lambda>a b. key b - key a) x ys)"
  using assms
proof (induction ys)
  case Nil
  show ?case by simp
next
  case (Cons y ys)
  show ?case
  proof (cases "key y - key x \<le> 0")
    case True
    with Cons.prems show ?thesis by (auto intro: order_trans)
  next
    case False
    with Cons show ?thesis by (auto simp: set_insert_sorted)
  qed
qed

lemma sorted_js_sort:
  fixes key :: "'a \<Rightarrow> real"
  shows "sorted_wrt (\<lambda>a b. key b \<le> key a) (js_sort (\<lambda>a b. key b - key a) xs)"
  by (induction xs) (auto simp: js_sort_def sorted_insert_sorted)

lemma filter_insert_sorted:
  fixes key :: "'a \<Rightarrow> real"
  shows "filter (\<lambda>y. key y = v) (insert_sorted (\<lambda>a b. key b - key a) x ys) =
         (if key x = v then x # filter (\<lambda>y. key y = v) ys else filter (\<lambda>y. key y = v) ys)"
  by (induction ys) auto

lemma stable_js_sort:
  fixes key :: "'a \<Rightarrow> real"
  shows "filter (\<lambda>y. key y = v) (js_sort (\<lambda>a b. key b - key a) xs) = filter (\<lambda>y. key y = v) xs"
  by (induction xs) (auto simp: js_sort_def filter_insert_sorted)

lemma map_snd_enumerate: "map (\<lambda>p. f (snd p)) (enumerate n xs) = map f xs"
  by (induction xs arbitrary: n) auto

lemma map_fst_enumerate_fun: "map (\<lambda>p. g (fst p)) (enumerate n xs) = map g [n..<n + length xs]"
proof -
  have "map (\<lambda>p. g (fst p)) (enumerate n xs) = map g (map fst (enumerate n xs))"
    by (simp only: map_map comp_def)
  also have "\<dots> = map g [n..<n + length xs]"
    by (simp only: map_fst_enumerate)
  finally show ?thesis .
qed

lemma unranked_ranked:
  "unranked \<lparr>teamName = teamName r, totalProjected = totalProjected r, players = players r,
             rank = k\<rparr> = (r :: team_result)"
  by (simp add: unranked_def)

lemma unranked_with_rank: "map unranked (with_rank results) = results"
proof -
  have "map unranked (with_rank results) =
        map (\<lambda>p. (\<lambda>t. t) (snd p)) (enumerate 0 results)"
    by (simp add: with_rank_def split_def comp_def unranked_ranked)
  also have "\<dots> = map (\<lambda>t. t) results" by (rule map_snd_enumerate)
  finally show ?thesis by simp
qed

lemma totals_with_rank: "map totalProjected (with_rank results) = map totalProjected results"
proof -
  have "map totalProjected (with_rank results) =
        map (\<lambda>p. totalProjected (snd p)) (enumerate 0 results)"
    by (simp add: with_rank_def split_def)
  also have "\<dots> = map totalProjected results" by (rule map_snd_enumerate)
  finally show ?thesis .
qed

lemma rank_with_rank: "map rank (with_rank results) = [1..<Suc (length results)]"
proof -
  have "map rank (with_rank results) = map (\<lambda>p. Suc (fst p)) (enumerate 0 results)"
    by (simp add: with_rank_def split_def)
  also have "\<dots> = map Suc [0..<0 + length results]" by (rule map_fst_enumerate_fun)
  also have "\<dots> = [1..<Suc (length results)]" by (simp add: map_Suc_upt)
  finally show ?thesis .
qed

text \<open>
  C7. In every rankings output the teams are in descending order of totalProjected, teams
  with equal totals keep the order in which the rosters were fetched, the output holds
  exactly the input teams, and the rank fields are 1, 2, ..., N in output order.
\<close>

theorem rankings_order:
  "sorted_wrt (\<lambda>a b. totalProjected b \<le> totalProjected a) (rank_teams results)
   \<and> filter (\<lambda>t. totalProjected t = v) (map unranked (rank_teams results))
       = filter (\<lambda>t. totalProjected t = v) results
   \<and> mset (map unranked (rank_teams results)) = mset results
   \<and> map rank (rank_teams results) = [1..<Suc (length results)]"
proof -
  let ?sorted = "js_sort (\<lambda>a b. totalProjected b - totalProjected a) results"
  have u: "map unranked (rank_teams results) = ?sorted"
    by (simp add: rank_teams_def unranked_with_rank)
  have tp: "map totalProjected (rank_teams results) = map totalProjected ?sorted"
    by (simp add: rank_teams_def totals_with_rank)
  have "sorted_wrt (\<lambda>a b. totalProjected b \<le> totalProjected a) ?sorted"
    by (rule sorted_js_sort)
  then have "sorted_wrt (\<lambda>a b. b \<le> a) (map totalProjected ?sorted)"
    by (simp add: sorted_wrt_map)
  then have s: "sorted_wrt (\<lambda>a b. totalProjected b \<le> totalProjected a) (rank_teams results)"
    unfolding tp[symmetric] by (simp add: sorted_wrt_map)
  have f: "filter (\<lambda>t. totalProjected t = v) (map unranked (rank_teams results))
       = filter (\<lambda>t. totalProjected t = v) results"
    unfolding u by (rule stable_js_sort)
  have m: "mset (map unranked (rank_teams results)) = mset results"
    unfolding u by (rule mset_js_sort)
  have r: "map rank (rank_teams results) = [1..<Suc (length results)]"
    by (simp add: rank_teams_def rank_with_rank length_js_sort)
  from s f m r show ?thesis by blast
qed

theorem rankings_order_witness:
  "rank_teams
     [\<lparr>teamName = ''A'', totalProjected = 1, players = []\<rparr>,
      \<lparr>teamName = ''B'', totalProjected = 3, players = []\<rparr>,
      \<lparr>teamName = ''C'', totalProjected = 1, players = []\<rparr>,
      \<lparr>teamName = ''D'', totalProjected = 3, players = []\<rparr>]
   = [\<lparr>teamName = ''B'', totalProjected = 3, players = [], rank = 1\<rparr>,
      \<lparr>teamName = ''D'', totalProjected = 3, players = [], rank = 2\<rparr>,
      \<lparr>teamName = ''A'', totalProjected = 1, players = [], rank = 3\<rparr>,
      \<lparr>teamName = ''C'', totalProjected = 1, players = [], rank = 4\<rparr>]
   \<and> map rank (rank_teams
     [\<lparr>teamName = ''A'', totalProjected = 1, players = []\<rparr>,
      \<lparr>teamName = ''B'', totalProjected = 3, players = []\<rparr>,
      \<lparr>teamName = ''C'', totalProjected = 1, players = []\<rparr>,
      \<lparr>teamName = ''D'', totalProjected = 3, players = []\<rparr>]) = [1, 2, 3, 4]"
proof (rule conjI)
  show "rank_teams
     [\<lparr>teamName = ''A'', totalProjected = 1, players = []\<rparr>,
      \<lparr>teamName = ''B'', totalProjected = 3, players = []\<rparr>,
      \<lparr>teamName = ''C'', totalProjected = 1, players = []\<rparr>,
      \<lparr>teamName = ''D'', totalProjected = 3, players = []\<rparr>]
   = [\<lparr>teamName = ''B'', totalProjected = 3, players = [], rank = 1\<rparr>,
      \<lparr>teamName = ''D'', totalProjected = 3, players = [], rank = 2\<rparr>,
      \<lparr>teamName = ''A'', totalProjected = 1, players = [], rank = 3\<rparr>,
      \<lparr>teamName = ''C'', totalProjected = 1, players = [], rank = 4\<rparr>]"
    by code_simp
  have "[1..<Suc (length [a, b, c, d])] = [1, 2, 3, 4]" for a b c d :: team_result
    by (simp add: upt_rec)
  then show "map rank (rank_teams
     [\<lparr>teamName = ''A'', totalProjected = 1, players = []\<rparr>,
      \<lparr>teamName = ''B'', totalProjected = 3, players = []\<rparr>,
      \<lparr>teamName = ''C'', totalProjected = 1, players = []\<rparr>,
      \<lparr>teamName = ''D'', totalProjected = 3, players = []\<rparr>]) = [1, 2, 3, 4]"
    using rankings_order[of "[\<lparr>teamName = ''A'', totalProjected = 1, players = []\<rparr>,
      \<lparr>teamName = ''B'', totalProjected = 3, players = []\<rparr>,
      \<lparr>teamName = ''C'', totalProjected = 1, players = []\<rparr>,
      \<lparr>teamName = ''D'', totalProjected = 3, players = []\<rparr>]"]
    by simp
qed

section \<open>Properties of the availability aggregator\<close>

text \<open>
  The team name that \<open>isDstRostered\<close> derives is the record's lower-cased name cut at its
  first \<open>" d/st"\<close>.
\<close>

lemma find_map_option: "find P (map f xs) = map_option f (find (\<lambda>x. P (f x)) xs)"
  by (induction xs) auto

lemma find_upt_Suc:
  "find P [0..<Suc n] =
     (if P 0 then Some 0 else map_option Suc (find (\<lambda>i. P (Suc i)) [0..<n]))"
proof -
  have "[0..<Suc n] = 0 # map Suc [0..<n]"
    by (simp add: upt_conv_Cons map_Suc_upt del: upt_Suc)
  then show ?thesis by (simp add: find_map_option del: upt_Suc)
qed

lemma split_first_without: "\<not> js_includes s sep \<Longrightarrow> split_first sep s = s"
  by (induction s) auto

lemma split_first_find:
  "split_first sep s =
     (case find (\<lambda>n. prefix sep (drop n s)) [0..<length s] of
        None \<Rightarrow> s
      | Some n \<Rightarrow> take n s)"
proof (induction s)
  case Nil
  show ?case by simp
next
  case (Cons c cs)
  show ?case
  proof (cases "prefix sep (c # cs)")
    case True
    then show ?thesis by (simp add: find_upt_Suc del: upt_Suc)
  next
    case False
    with Cons show ?thesis
      by (simp add: find_upt_Suc del: upt_Suc split: option.splits)
  qed
qed

lemma dst_team_name_eq: "dst_team_name name = name_before_dst name"
proof -
  have "dst_team_name name = split_first '' d/st'' (toLowerCase name)"
    by (simp add: dst_team_name_def Let_def split_first_without)
  then show ?thesis by (simp add: name_before_dst_def split_first_find)
qed

text \<open>
  For a defense record named by a franchise name and a trailing \<open>" D/ST"\<close> in any letter
  case, and for one whose name has no \<open>" d/st"\<close> at all, that team name is the lower-cased
  franchise name.
\<close>
lemma toLowerCase_take: "toLowerCase (take n s) = take n (toLowerCase s)"
  by (simp add: toLowerCase_def take_map)

lemma length_toLowerCase: "length (toLowerCase s) = length s"
  by (simp add: toLowerCase_def)

lemma dst_team_name_franchise:
  assumes "\<not> js_includes (toLowerCase name) '' d/st'' \<or>
           split_first '' d/st'' (toLowerCase name) @ '' d/st'' = toLowerCase name"
  shows "dst_team_name name = toLowerCase (franchise_name name)"
proof (cases "js_includes (toLowerCase name) '' d/st''")
  case False
  then have "\<not> suffix '' d/st'' (toLowerCase name)"
    unfolding js_includes_iff_sublist by (metis suffix_imp_sublist)
  with False show ?thesis by (simp add: dst_team_name_def franchise_name_def)
next
  case True
  with assms have eq: "split_first '' d/st'' (toLowerCase name) @ '' d/st'' = toLowerCase name"
    by blast
  then have suf: "suffix '' d/st'' (toLowerCase name)" by (metis suffixI)
  have "take (length (toLowerCase name) - 5) (toLowerCase name) =
        split_first '' d/st'' (toLowerCase name)"
    using take_trailing[of "toLowerCase name" "split_first '' d/st'' (toLowerCase name)" "'' d/st''"] eq
    by simp
  with True suf show ?thesis
    by (simp add: dst_team_name_def franchise_name_def toLowerCase_take length_toLowerCase)
qed

lemma name_forms_alt:
  "name_forms n =
     insert (normalizeName n)
       (case NAME_ALIASES (normalizeName n) of
          None \<Rightarrow> {}
        | Some a \<Rightarrow> if a \<noteq> [] then {a} else {})"
  using NAME_ALIASES_nonempty by (auto simp: name_forms_def split: option.splits)

lemma add_rostered_names:
  "names_at (add_rostered st e) pos =
     (if e_position e = pos then names_at st pos \<union> name_forms (e_name e) else names_at st pos)"
  by (auto simp: names_at_def add_rostered_def Let_def name_forms_alt split: option.splits)

lemma add_rostered_has:
  "fst (add_rostered st e) pos = None \<longleftrightarrow> fst st pos = None \<and> e_position e \<noteq> pos"
  by (auto simp: add_rostered_def Let_def)

lemma add_rostered_dst:
  "snd (add_rostered st e) =
     snd st @ (if e_position e = ''DST'' \<or> e_position e = ''DEF'' then [toLowerCase (e_name e)] else [])"
  by (auto simp: add_rostered_def Let_def)

lemma foldl_add_rostered_names:
  "names_at (foldl add_rostered st es) pos =
     names_at st pos \<union> (\<Union>e\<in>{e \<in> set es. e_position e = pos}. name_forms (e_name e))"
  by (induction es arbitrary: st) (auto simp: add_rostered_names)

lemma foldl_add_rostered_dst:
  "snd (foldl add_rostered st es) =
     snd st @ map (\<lambda>e. toLowerCase (e_name e))
                  (filter (\<lambda>e. e_position e = ''DST'' \<or> e_position e = ''DEF'') es)"
  by (induction es arbitrary: st) (auto simp: add_rostered_dst)

lemma is_taken_iff: "is_taken st r \<longleftrightarrow> names_at st (position r) \<inter> name_forms (player r) \<noteq> {}"
  using NAME_ALIASES_nonempty
  by (auto simp: is_taken_def names_at_def name_forms_def split: option.splits)

lemma dst_rostered_loop_iff:
  "dst_rostered_loop tn tc names \<longleftrightarrow>
     (\<exists>n\<in>set names. js_includes n tn \<or> (tc \<noteq> [] \<and> js_includes n (toLowerCase tc)))"
  by (induction names) auto

lemma to_available_inj: "to_available r = to_available r' \<Longrightarrow> r = r'"
  by (cases r; cases r') (simp add: to_available_def)

lemma foldl_add_available:
  "set (foldl (add_available st) acc rs) =
     set acc \<union> to_available `
       {r \<in> set rs. \<not> (if position r = ''DST'' then isDstRostered (snd st) (player r) (team r)
                          else is_taken st r)}"
  by (induction rs arbitrary: acc) (auto simp: add_available_def)

lemma rostered_iff_corresponds:
  "(if position r = ''DST''
    then isDstRostered (snd (collect_rostered rosters)) (player r) (team r)
    else is_taken (collect_rostered rosters) r)
   \<longleftrightarrow> (\<exists>ros\<in>set rosters. \<exists>e\<in>set (entries ros). corresponds e r)"
proof (cases "position r = ''DST''")
  case True
  then show ?thesis
    by (auto simp: isDstRostered_def dst_rostered_loop_iff collect_rostered_def
        foldl_add_rostered_dst corresponds_def dst_team_name_eq)
next
  case False
  have "names_at (Map.empty, []) (position r) = {}" by (simp add: names_at_def)
  with False show ?thesis
    by (auto simp: is_taken_iff collect_rostered_def foldl_add_rostered_names corresponds_def)
qed

text \<open>
  C6, as the code has it. A projection record of the catalog appears in the available output
  exactly when no roster entry of any roster corresponds to it. An entry corresponds to a
  record that is not a defense when it has the record's position and its normalized name or
  that name's alias is the record's normalized name or alias. A defense entry (DST or DEF)
  corresponds to a defense record when its lower-cased name contains the record's lower-cased
  name cut at its first " d/st" (the whole name when it has none), or the record's non-empty
  team code in lower case.
\<close>

theorem availability_complete:
  assumes "r \<in> set (all_records ps)"
  shows "to_available r \<in> set (available_players ps rosters) \<longleftrightarrow>
           \<not> (\<exists>ros\<in>set rosters. \<exists>e\<in>set (entries ros). corresponds e r)"
proof -
  have "to_available r \<in> set (available_players ps rosters) \<longleftrightarrow>
        \<not> (if position r = ''DST''
            then isDstRostered (snd (collect_rostered rosters)) (player r) (team r)
            else is_taken (collect_rostered rosters) r)"
    using assms to_available_inj
    by (auto simp: available_players_def set_js_sort foldl_add_available)
  then show ?thesis by (simp only: rostered_iff_corresponds)
qed

theorem availability_complete_witness:
  "to_available \<lparr>player = ''Dallas D/ST'', position = ''DST'', fantasy = 90, team = ''DAL''\<rparr>
     \<in> set (available_players
          \<lparr>qbs = [\<lparr>player = ''Josh Allen'', position = ''QB'', fantasy = 300, team = ''BUF''\<rparr>],
           rbs = [], 
           wrs = [\<lparr>player = ''Josh Palmer'', position = ''WR'', fantasy = 12.4, team = ''LAC''\<rparr>],
           tes = [], ks = [],
           dsts = [\<lparr>player = ''Denver D/ST'', position = ''DST'', fantasy = 100, team = ''DEN''\<rparr>,
                   \<lparr>player = ''Dallas D/ST'', position = ''DST'', fantasy = 90, team = ''DAL''\<rparr>]\<rparr>
          [\<lparr>rosterId = ''1'', roster_teamName = ''Team 1'',
            entries = [\<lparr>e_id = ''11'', e_name = ''Joshua Palmer'', e_position = ''WR'', e_isStarter = True\<rparr>,
                       \<lparr>e_id = ''DEN'', e_name = ''Denver Broncos'', e_position = ''DST'', e_isStarter = True\<rparr>]\<rparr>])
   \<and> to_available \<lparr>player = ''Josh Palmer'', position = ''WR'', fantasy = 12.4, team = ''LAC''\<rparr>
     \<notin> set (available_players
          \<lparr>qbs = [\<lparr>player = ''Josh Allen'', position = ''QB'', fantasy = 300, team = ''BUF''\<rparr>],
           rbs = [], 
           wrs = [\<lparr>player = ''Josh Palmer'', position = ''WR'', fantasy = 12.4, team = ''LAC''\<rparr>],
           tes = [], ks = [],
           dsts = [\<lparr>player = ''Denver D/ST'', position = ''DST'', fantasy = 100, team = ''DEN''\<rparr>,
                   \<lparr>player = ''Dallas D/ST'', position = ''DST'', fantasy = 90, team = ''DAL''\<rparr>]\<rparr>
          [\<lparr>rosterId = ''1'', roster_teamName = ''Team 1'',
            entries = [\<lparr>e_id = ''11'', e_name = ''Joshua Palmer'', e_position = ''WR'', e_isStarter = True\<rparr>,
                       \<lparr>e_id = ''DEN'', e_name = ''Denver Broncos'', e_position = ''DST'', e_isStarter = True\<rparr>]\<rparr>])"
proof -
  let ?dal = "\<lparr>player = ''Dallas D/ST'', position = ''DST'', fantasy = 90::real, team = ''DAL''\<rparr>"
  let ?pal = "\<lparr>player = ''Josh Palmer'', position = ''WR'', fantasy = 12.4::real, team = ''LAC''\<rparr>"
  let ?ps = "\<lparr>qbs = [\<lparr>player = ''Josh Allen'', position = ''QB'', fantasy = 300, team = ''BUF''\<rparr>],
           rbs = [], wrs = [?pal], tes = [], ks = [],
           dsts = [\<lparr>player = ''Denver D/ST'', position = ''DST'', fantasy = 100, team = ''DEN''\<rparr>, ?dal]\<rparr>"
  let ?e1 = "\<lparr>e_id = ''11'', e_name = ''Joshua Palmer'', e_position = ''WR'', e_isStarter = True\<rparr>"
  let ?e2 = "\<lparr>e_id = ''DEN'', e_name = ''Denver Broncos'', e_position = ''DST'', e_isStarter = True\<rparr>"
  let ?ros = "[\<lparr>rosterId = ''1'', roster_teamName = ''Team 1'', entries = [?e1, ?e2]\<rparr>]"
  have in1: "?dal \<in> set (all_records ?ps)" by (simp add: all_records_def)
  have in2: "?pal \<in> set (all_records ?ps)" by (simp add: all_records_def)
  have d1: "\<not> corresponds ?e1 ?dal" by code_simp
  have d2: "\<not> corresponds ?e2 ?dal" by code_simp
  have p1: "corresponds ?e1 ?pal" by code_simp
  have free: "\<not> (\<exists>ros\<in>set ?ros. \<exists>e\<in>set (entries ros). corresponds e ?dal)"
    using d1 d2 by simp
  have taken: "\<exists>ros\<in>set ?ros. \<exists>e\<in>set (entries ros). corresponds e ?pal"
    using p1 by simp
  from availability_complete[OF in1, of ?ros] free
  have a: "to_available ?dal \<in> set (available_players ?ps ?ros)" by blast
  from availability_complete[OF in2, of ?ros] taken
  have b: "to_available ?pal \<notin> set (available_players ?ps ?ros)" by blast
  from a b show ?thesis by (rule conjI)
qed

text \<open>
  The property as stated fails twice. The quarterback record "Taysom Hill" is listed as
  available although the roster holds "Taysom Hill" as a tight end, the same name under
  normalization. The defense record "Denver D/ST Unit", whose name has no trailing " D/ST" to
  strip and is not contained in "denver broncos", is not listed although no entry has its
  franchise name or team code.
\<close>

theorem availability_counterexample:
  "claimed_corresponds
     \<lparr>e_id = ''4'', e_name = ''Taysom Hill'', e_position = ''TE'', e_isStarter = True\<rparr>
     \<lparr>player = ''Taysom Hill'', position = ''QB'', fantasy = 150, team = ''NO''\<rparr>
   \<and> to_available \<lparr>player = ''Taysom Hill'', position = ''QB'', fantasy = 150, team = ''NO''\<rparr>
     \<in> set (available_players
          \<lparr>qbs = [\<lparr>player = ''Taysom Hill'', position = ''QB'', fantasy = 150, team = ''NO''\<rparr>],
           rbs = [], wrs = [], tes = [], ks = [],
           dsts = [\<lparr>player = ''Denver D/ST Unit'', position = ''DST'', fantasy = 100, team = []\<rparr>]\<rparr>
          [\<lparr>rosterId = ''1'', roster_teamName = ''Team 1'',
            entries = [\<lparr>e_id = ''4'', e_name = ''Taysom Hill'', e_position = ''TE'', e_isStarter = True\<rparr>,
                       \<lparr>e_id = ''DEN'', e_name = ''Denver Broncos'', e_position = ''DST'', e_isStarter = True\<rparr>]\<rparr>])
   \<and> \<not> claimed_corresponds
     \<lparr>e_id = ''4'', e_name = ''Taysom Hill'', e_position = ''TE'', e_isStarter = True\<rparr>
     \<lparr>player = ''Denver D/ST Unit'', position = ''DST'', fantasy = 100, team = []\<rparr>
   \<and> \<not> claimed_corresponds
     \<lparr>e_id = ''DEN'', e_name = ''Denver Broncos'', e_position = ''DST'', e_isStarter = True\<rparr>
     \<lparr>player = ''Denver D/ST Unit'', position = ''DST'', fantasy = 100, team = []\<rparr>
   \<and> to_available \<lparr>player = ''Denver D/ST Unit'', position = ''DST'', fantasy = 100, team = []\<rparr>
     \<notin> set (available_players
          \<lparr>qbs = [\<lparr>player = ''Taysom Hill'', position = ''QB'', fantasy = 150, team = ''NO''\<rparr>],
           rbs = [], wrs = [], tes = [], ks = [],
           dsts = [\<lparr>player = ''Denver D/ST Unit'', position = ''DST'', fantasy = 100, team = []\<rparr>]\<rparr>
          [\<lparr>rosterId = ''1'', roster_teamName = ''Team 1'',
            entries = [\<lparr>e_id = ''4'', e_name = ''Taysom Hill'', e_position = ''TE'', e_isStarter = True\<rparr>,
                       \<lparr>e_id = ''DEN'', e_name = ''Denver Broncos'', e_position = ''DST'', e_isStarter = True\<rparr>]\<rparr>])"
  by code_simp

section \<open>Properties of the request surface\<close>

lemma DEFAULT_LEAGUE_ID_nonempty: "DEFAULT_LEAGUE_ID \<noteq> []"
  by (simp add: DEFAULT_LEAGUE_ID_def)

lemma trim_Nil: "trim [] = []"
  by (simp add: trim_def)

lemma resolveLeagueId_precedence:
  "resolveLeagueId query env =
     (if trim (case query of None \<Rightarrow> [] | Some v \<Rightarrow> v) \<noteq> []
      then trim (case query of None \<Rightarrow> [] | Some v \<Rightarrow> v)
      else if trim (case env of None \<Rightarrow> [] | Some v \<Rightarrow> v) \<noteq> []
      then trim (case env of None \<Rightarrow> [] | Some v \<Rightarrow> v)
      else DEFAULT_LEAGUE_ID)"
  by (auto simp: resolveLeagueId_def or_str_def trim_Nil split: option.splits)

lemma resolveLeagueId_nonempty: "resolveLeagueId query env \<noteq> []"
  by (auto simp: resolveLeagueId_def or_str_def DEFAULT_LEAGUE_ID_nonempty)

lemma handler_computes:
  "handler query env compute = Status200 (compute (resolveLeagueId query env))"
  by (simp add: handler_def handle_def resolveLeagueId_nonempty)

lemma handle_missing: "handle [] compute = Status400 ''Missing LEAGUE_ID''"
  by (simp add: handle_def)

lemma handler_wrapper_missing:
  "handler_wrapper None None compute = Status400 ''Missing LEAGUE_ID''"
  by (simp add: handler_wrapper_def resolveLeagueId_wrapper_def handle_def or_str_def trim_Nil)

text \<open>
  C4. The league identifier is to be resolved from the query parameter first, then from the
  configured value, then from the built-in default. The handlers with the default do so (and
  so never answer 400); the wrapper handler of \<open>api/rankings.js\<close> takes the configured
  value first: with \<open>LEAGUE_ID=111\<close> configured, a request for \<open>?leagueId=222\<close> is
  computed for league 111 by the wrapper and for league 222 by the others.
\<close>

theorem wrapper_prefers_configured_value:
  "handler_wrapper (Some ''222'') (Some ''111'') compute = Status200 (compute ''111'')
   \<and> handler (Some ''222'') (Some ''111'') compute = Status200 (compute ''222'')"
proof (rule conjI)
  have "resolveLeagueId_wrapper (Some ''222'') (Some ''111'') = ''111''" by code_simp
  then show "handler_wrapper (Some ''222'') (Some ''111'') compute = Status200 (compute ''111'')"
    by (simp add: handler_wrapper_def handle_def)
  have "resolveLeagueId (Some ''222'') (Some ''111'') = ''222''" by code_simp
  then show "handler (Some ''222'') (Some ''111'') compute = Status200 (compute ''222'')"
    by (simp add: handler_def handle_def)
qed

end
